theory Spec2Isabelle
  imports Complex_Main "HOL-Library.Multiset" "HOL-Library.Sublist"
begin

section \<open>Strings\<close>

text \<open>
  JavaScript strings are modelled as lists of 8-bit characters: the code units
  U+0000 to U+00FF of a UTF-16 string. Every marker, alias and separator of the
  program is ASCII. Numbers are modelled as unbounded integers, which is what the
  program's double-precision numbers are for magnitudes below \<open>2 ^ 53\<close>.
\<close>

text \<open>\<^verbatim>\<open>String.prototype.toLowerCase\<close> on one code unit below U+0100: the ASCII capitals
  and the Latin-1 capitals U+00C0 to U+00DE (U+00D7, the multiplication sign, apart)
  move up by 32; everything else stays.\<close>

definition lower_char :: "char \<Rightarrow> char" where
  "lower_char c =
     (let n = (of_char c :: nat)
      in if (65 \<le> n \<and> n \<le> 90) \<or> (192 \<le> n \<and> n \<le> 222 \<and> n \<noteq> 215)
         then char_of (n + 32) else c)"

definition toLowerCase :: "string \<Rightarrow> string" where
  "toLowerCase s = map lower_char s"

text \<open>\<^verbatim>\<open>hay.includes(needle)\<close>: the needle occurs at some position of the haystack.\<close>

fun includes_str :: "string \<Rightarrow> string \<Rightarrow> bool" where
  "includes_str hay needle =
     (prefix needle hay \<or> (case hay of [] \<Rightarrow> False | _ # rest \<Rightarrow> includes_str rest needle))"

declare includes_str.simps [simp del]

section \<open>The layer tree\<close>

datatype LayerType = Embedding | Attention | Mlp | Norm | Head | Vision | Group

text \<open>The interface \<^verbatim>\<open>LayerNode\<close> of \<^verbatim>\<open>types.ts\<close>; the optional \<^verbatim>\<open>paramCount\<close> is an option.\<close>

datatype LayerNode = LayerNode
  (node_id: string) (name: string) (fullPath: string) (ltype: LayerType)
  (children: "LayerNode list") (isSelectable: bool) (paramCount: "int option")

section \<open>Role classifier\<close>

definition classifySegment :: "string \<Rightarrow> string \<Rightarrow> LayerType" where
  "classifySegment segment fullPath' =
     (let s = toLowerCase segment; fp = toLowerCase fullPath' in
      if includes_str s ''embed'' \<or> s = ''wte'' \<or> s = ''wpe'' then Embedding
      else if includes_str s ''norm'' \<or> includes_str s ''layernorm'' \<or> s = ''ln_1'' \<or> s = ''ln_2'' \<or>
              s = ''ln_f'' \<or> s = ''final_layer_norm'' \<or> s = ''input_layernorm'' \<or>
              s = ''post_attention_layernorm'' \<or> s = ''layer_norm1'' \<or> s = ''layer_norm2'' then Norm
      else if s = ''lm_head'' \<or> s = ''score'' \<or> s = ''classifier'' then Head
      else if (includes_str s ''self_attn'' \<or> includes_str s ''attention'' \<or> includes_str s ''attn'' \<or>
               s = ''q_proj'' \<or> s = ''k_proj'' \<or> s = ''v_proj'' \<or> s = ''o_proj'' \<or>
               s = ''qkv_proj'' \<or> s = ''query'' \<or> s = ''key'' \<or> s = ''value'') \<and>
              (includes_str fp ''attn'' \<or> includes_str fp ''attention'' \<or> includes_str fp ''self_attn'' \<or>
               s \<in> set [''q_proj'', ''k_proj'', ''v_proj'', ''o_proj'', ''qkv_proj'', ''query'', ''key'', ''value''])
           then Attention
      else if (includes_str s ''mlp'' \<or> s = ''gate_proj'' \<or> s = ''up_proj'' \<or> s = ''down_proj'' \<or>
               s = ''fc1'' \<or> s = ''fc2'' \<or> s = ''c_fc'' \<or> s = ''c_proj'' \<or>
               s = ''gate_up_proj'' \<or> s = ''dense_h_to_4h'' \<or> s = ''dense_4h_to_h'') \<and>
              (includes_str fp ''mlp'' \<or>
               s \<in> set [''gate_proj'', ''up_proj'', ''down_proj'', ''fc1'', ''fc2'',
                         ''c_fc'', ''gate_up_proj'', ''dense_h_to_4h'', ''dense_4h_to_h''])
           then Mlp
      else if includes_str fp ''vision'' \<or> includes_str fp ''visual'' \<or> includes_str fp ''image_encoder'' \<or>
              includes_str fp ''vit'' \<or> includes_str fp ''clip'' then Vision
      else Group)"


section \<open>Path normalizer\<close>

definition WEIGHT_SUFFIXES :: "string list" where
  "WEIGHT_SUFFIXES = [''.weight'', ''.bias'', ''.scales'', ''.zero_point'', ''.weight_scale'']"

definition endsWith :: "string \<Rightarrow> string \<Rightarrow> bool" where
  "endsWith s suf = suffix suf s"

text \<open>The loop of \<^verbatim>\<open>stripWeightSuffix\<close> over the suffix list: the first suffix that ends the
  key is cut off (\<^verbatim>\<open>key.slice(0, -suffix.length)\<close>).\<close>

fun stripSuffixes :: "string list \<Rightarrow> string \<Rightarrow> string" where
  "stripSuffixes [] key = key"
| "stripSuffixes (suf # rest) key =
     (if endsWith key suf then take (length key - length suf) key else stripSuffixes rest key)"

definition stripWeightSuffix :: "string \<Rightarrow> string" where
  "stripWeightSuffix key = stripSuffixes WEIGHT_SUFFIXES key"

section \<open>Numbered-layer collapse\<close>

definition isDigit :: "char \<Rightarrow> bool" where
  "isDigit c = (48 \<le> (of_char c :: nat) \<and> (of_char c :: nat) \<le> 57)"

text \<open>The pattern \<^verbatim>\<open>/^\d+$/\<close>: the whole string is one or more decimal digits.\<close>

definition numberedPattern :: "string \<Rightarrow> bool" where
  "numberedPattern s = (s \<noteq> [] \<and> list_all isDigit s)"

text \<open>\<^verbatim>\<open>parseInt(s, 10)\<close>, which the program only applies to strings of decimal digits.\<close>

definition digitValue :: "char \<Rightarrow> nat" where
  "digitValue c = of_char c - 48"

definition parseInt10 :: "string \<Rightarrow> nat" where
  "parseInt10 s = foldl (\<lambda>acc c. 10 * acc + digitValue c) 0 s"

text \<open>The object spread \<^verbatim>\<open>{ ...node, children: cs }\<close>.\<close>

definition withChildren :: "LayerNode \<Rightarrow> LayerNode list \<Rightarrow> LayerNode" where
  "withChildren node cs =
     LayerNode (node_id node) (name node) (fullPath node) (ltype node) cs
       (isSelectable node) (paramCount node)"

text \<open>The first loop of \<^verbatim>\<open>collapseNumberedLayers\<close>: every node is pushed on \<^verbatim>\<open>numbered\<close>
  or on \<^verbatim>\<open>others\<close>. The result is the pair \<open>(numbered, others)\<close>.\<close>

definition splitNumbered :: "LayerNode list \<Rightarrow> LayerNode list \<times> LayerNode list" where
  "splitNumbered nodes =
     foldl (\<lambda>(numbered, others) node.
              if numberedPattern (name node) then (numbered @ [node], others)
              else (numbered, others @ [node]))
           ([], []) nodes"

lemma splitNumbered_filter:
  "splitNumbered nodes =
     (filter (\<lambda>n. numberedPattern (name n)) nodes,
      filter (\<lambda>n. \<not> numberedPattern (name n)) nodes)"
proof -
  have "foldl (\<lambda>(numbered, others) node.
              if numberedPattern (name node) then (numbered @ [node], others)
              else (numbered, others @ [node])) (a, b) nodes =
        (a @ filter (\<lambda>n. numberedPattern (name n)) nodes,
         b @ filter (\<lambda>n. \<not> numberedPattern (name n)) nodes)" for a b
    by (induction nodes arbitrary: a b) simp_all
  then show ?thesis by (simp add: splitNumbered_def)
qed

lemma children_size [termination_simp]:
  "node \<in> set nodes \<Longrightarrow> size_list size (children node) < size_list size nodes"
proof (induction nodes)
  case Nil
  then show ?case by simp
next
  case (Cons a nodes)
  then show ?case by (cases node) auto
qed

text \<open>\<^verbatim>\<open>Array.prototype.sort\<close> is stable; with the comparator
  \<^verbatim>\<open>parseInt(a.name, 10) - parseInt(b.name, 10)\<close> it is the stable sort by that key.\<close>

function collapseNumberedLayers :: "LayerNode list \<Rightarrow> LayerNode list" where
  "collapseNumberedLayers nodes =
     (let numbered = fst (splitNumbered nodes);
          others = snd (splitNumbered nodes);
          result = map (\<lambda>node. withChildren node (collapseNumberedLayers (children node))) others
      in result @
         map (\<lambda>node. withChildren node (collapseNumberedLayers (children node)))
           (sort_key (\<lambda>node. parseInt10 (name node)) numbered))"
  by pat_completeness auto
termination
  by (relation "measure (size_list size)") (auto simp: splitNumbered_filter children_size)

declare collapseNumberedLayers.simps [simp del]

section \<open>Forward-pass orderer\<close>

definition getForwardPassPriority :: "string \<Rightarrow> rat" where
  "getForwardPassPriority name' =
     (let s = toLowerCase name' in
      if includes_str s ''embed'' \<or> s = ''wte'' \<or> s = ''wpe'' \<or> s = ''patch_embed'' \<or> s = ''pos_embed'' then 0
      else if includes_str s ''visual'' \<or> includes_str s ''vision'' \<or> s = ''vit'' \<or> s = ''clip'' \<or>
              s = ''image_encoder'' then 1
      else if s = ''merger'' \<or> s = ''connector'' \<or> s = ''projector'' \<or> s = ''multi_modal_projector'' \<or>
              s = ''deepstack'' then 2
      else if s = ''language_model'' \<or> s = ''model'' \<or> s = ''transformer'' then 3
      else if s = ''layers'' \<or> s = ''blocks'' \<or> s = ''h'' \<or> s = ''encoder'' \<or> numberedPattern s then 4
      else if s = ''input_layernorm'' \<or> s = ''layer_norm1'' then 5
      else if s = ''self_attn'' \<or> s = ''attention'' \<or> s = ''attn'' then 51 / 10
      else if s = ''post_attention_layernorm'' \<or> s = ''layer_norm2'' then 52 / 10
      else if s = ''mlp'' then 53 / 10
      else if s = ''norm'' \<or> s = ''ln_f'' \<or> s = ''final_layer_norm'' \<or> s = ''final_layernorm'' then 6
      else if s = ''lm_head'' \<or> s = ''classifier'' \<or> s = ''score'' then 7
      else 99)"

text \<open>\<^verbatim>\<open>nodes.slice().sort(...)\<close> with the comparator
  \<^verbatim>\<open>getForwardPassPriority(a.name) - getForwardPassPriority(b.name)\<close>: the stable sort by
  priority, on a copy.\<close>

function sortForwardPass :: "LayerNode list \<Rightarrow> LayerNode list" where
  "sortForwardPass nodes =
     map (\<lambda>node. withChildren node (sortForwardPass (children node)))
       (sort_key (\<lambda>node. getForwardPassPriority (name node)) nodes)"
  by pat_completeness auto
termination
  by (relation "measure (size_list size)") (auto simp: children_size)

declare sortForwardPass.simps [simp del]

section \<open>Parameter-count aggregator\<close>

text \<open>A \<^verbatim>\<open>Map<string, number>\<close> argument is the list of its entries in iteration order; the
  map \<^verbatim>\<open>moduleParams\<close> built from it is a partial function.\<close>

definition orZero :: "int option \<Rightarrow> int" where
  "orZero v = (case v of None \<Rightarrow> 0 | Some n \<Rightarrow> n)"

text \<open>The body of the loop over the entries of \<^verbatim>\<open>tensorParamCounts\<close>.\<close>

definition addTensor :: "(string \<rightharpoonup> int) \<Rightarrow> string \<times> int \<Rightarrow> (string \<rightharpoonup> int)" where
  "addTensor moduleParams entry =
     (let tensorName = fst entry; count = snd entry;
          modulePath = stripWeightSuffix tensorName
      in moduleParams(modulePath \<mapsto> orZero (moduleParams modulePath) + count))"

definition buildModuleParams :: "(string \<times> int) list \<Rightarrow> (string \<rightharpoonup> int)" where
  "buildModuleParams tensorParamCounts = foldl addTensor Map.empty tensorParamCounts"

definition withParamCount :: "LayerNode \<Rightarrow> int \<Rightarrow> LayerNode" where
  "withParamCount node c =
     LayerNode (node_id node) (name node) (fullPath node) (ltype node) (children node)
       (isSelectable node) (Some c)"

function attach :: "(string \<rightharpoonup> int) \<Rightarrow> LayerNode list \<Rightarrow> LayerNode list" where
  "attach moduleParams nodes =
     map (\<lambda>node.
            if length (children node) = 0
            then withParamCount node (orZero (moduleParams (fullPath node)))
            else (let children' = attach moduleParams (children node);
                      paramCount' = foldl (\<lambda>sum c. sum + orZero (paramCount c)) 0 children'
                  in withParamCount (withChildren node children') paramCount'))
         nodes"
  by pat_completeness auto
termination
  by (relation "measure (\<lambda>(m, nodes). size_list size nodes)") (auto simp: children_size)

declare attach.simps [simp del]

definition attachParamCounts :: "LayerNode list \<Rightarrow> (string \<times> int) list \<Rightarrow> LayerNode list" where
  "attachParamCounts nodes tensorParamCounts = attach (buildModuleParams tensorParamCounts) nodes"

section \<open>Selection optimizer\<close>

abbreviation backslash :: char where "backslash \<equiv> CHR 0x5C"
abbreviation dquote :: char where "dquote \<equiv> CHR 0x22"
abbreviation squote :: char where "squote \<equiv> CHR 0x27"
abbreviation newline :: char where "newline \<equiv> CHR 0x0A"

text \<open>The characters of the class \<^verbatim>\<open>[.*+?^${}()|[\]\\]\<close> of \<^verbatim>\<open>escapeRegex\<close>; they are the syntax
  characters of a JavaScript pattern.\<close>

definition syntaxChars :: "char list" where
  "syntaxChars = ''.*+?^${}()|[]'' @ [backslash]"

text \<open>\<^verbatim>\<open>str.replace(/[.*+?^${}()|[\]\\]/g, '\\$&')\<close>: a backslash before every such character.\<close>

definition escapeRegex :: "string \<Rightarrow> string" where
  "escapeRegex str = concat (map (\<lambda>c. if c \<in> set syntaxChars then [backslash, c] else [c]) str)"

text \<open>Line terminators, which the pattern character \<^verbatim>\<open>.\<close> does not match: line feed and
  carriage return (the other two, U+2028 and U+2029, are not 8-bit characters).\<close>

definition isLineTerminator :: "char \<Rightarrow> bool" where
  "isLineTerminator c = (c = newline \<or> c = CHR 0x0D)"

text \<open>
  The pattern \<^verbatim>\<open>/^(.+\.)(\d+)(\..+)$/\<close> of \<^verbatim>\<open>toTemplate\<close> splits a path into a prefix of at
  least two characters that ends in a dot, a maximal non-empty run of digits, and a suffix
  that is a dot followed by at least one character; no character of the path is a line
  terminator. (After the prefix, \<^verbatim>\<open>\d+\<close> can only take the whole run of digits: after a
  shorter run the next character is a digit, not the dot the third group starts with.)
  \<open>validSplit pre rest\<close> says that the path \<open>pre @ rest\<close> splits after \<open>pre\<close>.
\<close>

definition validSplit :: "string \<Rightarrow> string \<Rightarrow> bool" where
  "validSplit pre rest =
     (2 \<le> length pre \<and> last pre = CHR ''.'' \<and> takeWhile isDigit rest \<noteq> [] \<and>
      (case dropWhile isDigit rest of
         d # e # _ \<Rightarrow> d = CHR ''.''
       | _ \<Rightarrow> False))"

text \<open>All splits of \<open>acc @ rest\<close> whose prefix extends \<open>acc\<close>, by increasing length of the prefix.\<close>

fun templateSplits :: "string \<Rightarrow> string \<Rightarrow> (string \<times> string \<times> string) list" where
  "templateSplits acc [] = []"
| "templateSplits acc (c # cs) =
     (if validSplit acc (c # cs)
      then [(acc, takeWhile isDigit (c # cs), dropWhile isDigit (c # cs))] else []) @
     templateSplits (acc @ [c]) cs"

text \<open>The groups 1, 2 and 3 of the match, or \<open>None\<close> when the pattern does not match. The first
  group \<^verbatim>\<open>(.+\.)\<close> is greedy: the backtracking matcher tries the longest prefix first, so the
  match it finds is the split with the longest prefix.\<close>

definition matchTemplate :: "string \<Rightarrow> (string \<times> string \<times> string) option" where
  "matchTemplate path =
     (if list_ex isLineTerminator path then None
      else case rev (templateSplits [] path) of
             [] \<Rightarrow> None
           | m # _ \<Rightarrow> Some m)"

text \<open>The result \<^verbatim>\<open>{ template, index }\<close> of \<^verbatim>\<open>toTemplate\<close> as a pair.\<close>

definition toTemplate :: "string \<Rightarrow> (string \<times> nat) option" where
  "toTemplate path =
     (case matchTemplate path of
        None \<Rightarrow> None
      | Some (m1, m2, m3) \<Rightarrow> Some (m1 @ ''{{INDEX}}'' @ m3, parseInt10 m2))"

record TemplateGroup =
  grp_template :: string
  grp_prefix :: string
  grp_suffix :: string
  grp_indices :: "nat list"

text \<open>\<^verbatim>\<open>String(idx)\<close> for a natural number below \<open>10 ^ 21\<close>: its decimal digits.\<close>

definition digitChar :: "nat \<Rightarrow> char" where
  "digitChar d = char_of (48 + d)"

fun showNat :: "nat \<Rightarrow> string" where
  "showNat n = (if n < 10 then [digitChar n] else showNat (n div 10) @ [digitChar (n mod 10)])"

declare showNat.simps [simp del]

text \<open>\<^verbatim>\<open>items.join(sep)\<close>.\<close>

fun join :: "'a list \<Rightarrow> 'a list list \<Rightarrow> 'a list" where
  "join sep [] = []"
| "join sep [x] = x"
| "join sep (x # y # ys) = x @ sep @ join sep (y # ys)"

text \<open>
  The \<^verbatim>\<open>Map\<close> \<^verbatim>\<open>templateGroups\<close> is the list of its entries in insertion order, which is the
  order the last loop iterates in. \<open>hasKey\<close> is \<^verbatim>\<open>Map.has\<close>; \<open>pushIndex\<close> is
  \<^verbatim>\<open>templateGroups.get(template)!.indices.push(index)\<close>.
\<close>

definition hasKey :: "(string \<times> TemplateGroup) list \<Rightarrow> string \<Rightarrow> bool" where
  "hasKey groups k = (k \<in> set (map fst groups))"

definition pushIndex :: "(string \<times> TemplateGroup) list \<Rightarrow> string \<Rightarrow> nat \<Rightarrow> (string \<times> TemplateGroup) list" where
  "pushIndex groups k index =
     map (\<lambda>(k', g). if k' = k then (k', g\<lparr>grp_indices := grp_indices g @ [index]\<rparr>) else (k', g)) groups"

text \<open>The body of the first loop of \<^verbatim>\<open>optimizeSelection\<close>, on the state
  \<open>(templateGroups, nonTemplated)\<close>. The second match, with \<^verbatim>\<open>/^(.+\.)\d+(\..+)$/\<close>, is the
  match of \<^verbatim>\<open>toTemplate\<close> without the group around the digits.\<close>

definition groupPath ::
  "(string \<times> TemplateGroup) list \<times> string list \<Rightarrow> string \<Rightarrow> (string \<times> TemplateGroup) list \<times> string list" where
  "groupPath state path =
     (let templateGroups = fst state; nonTemplated = snd state in
      case toTemplate path of
        None \<Rightarrow> (templateGroups, nonTemplated @ [path])
      | Some (template, index) \<Rightarrow>
          (let templateGroups' =
                 (if \<not> hasKey templateGroups template
                  then (case matchTemplate path of
                          Some (m1, m2, m3) \<Rightarrow>
                            templateGroups @
                              [(template, \<lparr>grp_template = template, grp_prefix = m1,
                                            grp_suffix = m3, grp_indices = []\<rparr>)]
                        | None \<Rightarrow> templateGroups)
                  else templateGroups)
           in (pushIndex templateGroups' template index, nonTemplated)))"

text \<open>The body of the second loop, on the map \<^verbatim>\<open>allTemplateCount\<close>.\<close>

definition countPath :: "(string \<rightharpoonup> nat) \<Rightarrow> string \<Rightarrow> (string \<rightharpoonup> nat)" where
  "countPath allTemplateCount path =
     (case toTemplate path of
        None \<Rightarrow> allTemplateCount
      | Some (template, index) \<Rightarrow>
          allTemplateCount(template \<mapsto>
            (case allTemplateCount template of None \<Rightarrow> 0 | Some n \<Rightarrow> n) + 1))"

definition isContiguous :: "nat list \<Rightarrow> bool" where
  "isContiguous xs = list_all (\<lambda>i. i = 0 \<or> xs ! i = xs ! (i - 1) + 1) [0..<length xs]"

text \<open>The body of the last loop: the rules one template group contributes. The numeric sort
  \<^verbatim>\<open>group.indices.sort((a, b) => a - b)\<close> is \<open>sort\<close>.\<close>

definition emitGroup :: "(string \<rightharpoonup> nat) \<Rightarrow> string \<times> TemplateGroup \<Rightarrow> string list" where
  "emitGroup allTemplateCount entry =
     (let template = fst entry; grp = snd entry;
          totalForTemplate = (case allTemplateCount template of None \<Rightarrow> 0 | Some n \<Rightarrow> n);
          indices = sort (grp_indices grp)
      in if length indices = totalForTemplate
         then [''re:'' @ escapeRegex (grp_prefix grp) @ [backslash] @ ''d+'' @ escapeRegex (grp_suffix grp)]
         else if length indices \<le> 3
         then map (\<lambda>idx. grp_prefix grp @ showNat idx @ grp_suffix grp) indices
         else if isContiguous indices \<and> length indices > 3
         then [''re:'' @ escapeRegex (grp_prefix grp) @ ''('' @ join ''|'' (map showNat indices) @ '')'' @
               escapeRegex (grp_suffix grp)]
         else [''re:'' @ escapeRegex (grp_prefix grp) @ ''('' @ join ''|'' (map showNat indices) @ '')'' @
               escapeRegex (grp_suffix grp)])"

record Selection =
  explicit :: "string list"
  optimized :: "string list"

definition optimizeSelection :: "string list \<Rightarrow> string list \<Rightarrow> Selection" where
  "optimizeSelection selectedPaths allSelectablePaths =
     (if length selectedPaths = 0 then \<lparr>explicit = [], optimized = []\<rparr>
      else let state = foldl groupPath ([], []) selectedPaths;
               templateGroups = fst state; nonTemplated = snd state;
               allTemplateCount = foldl countPath Map.empty allSelectablePaths
           in \<lparr>explicit = selectedPaths,
               optimized = nonTemplated @ concat (map (emitGroup allTemplateCount) templateGroups)\<rparr>)"

section \<open>Ignore-list text\<close>

definition formatStringList :: "string list \<Rightarrow> string" where
  "formatStringList items =
     (if length items = 0 then ''[]''
      else ''['' @ [newline] @
           join [newline] (map (\<lambda>item. ''    '' @ [dquote] @ item @ [dquote] @ '','') items) @
           [newline] @ '']'')"

definition formatIgnoreList :: "string list \<Rightarrow> string" where
  "formatIgnoreList items = ''ignore='' @ formatStringList items"

text \<open>
  \<^verbatim>\<open>text.match(/\[([^\]]*)\]/s)\<close>, group 1: the search takes the first opening bracket that
  has a closing bracket somewhere after it, and the group is the text up to the first
  closing bracket. (From an opening bracket the class takes all characters up to the next
  closing bracket or the end; at the end there is no match from this position, nor from
  any later one.)
\<close>

fun bracketMatch :: "string \<Rightarrow> string option" where
  "bracketMatch [] = None"
| "bracketMatch (c # cs) =
     (if c = CHR ''['' \<and> CHR '']'' \<in> set cs then Some (takeWhile (\<lambda>x. x \<noteq> CHR '']'') cs)
      else bracketMatch cs)"

definition isQuote :: "char \<Rightarrow> bool" where
  "isQuote c = (c = dquote \<or> c = squote)"

text \<open>
  The loop \<^verbatim>\<open>while ((m = re.exec(inner)) !== null) items.push(m[1])\<close> with
  \<^verbatim>\<open>/["']([^"']+)["']/g\<close>: from a quote, the class takes all characters up to the next quote;
  when that run is not empty and a quote follows, it is an item and the search goes on
  after the closing quote; otherwise the search goes on one character later.
\<close>

function quotedItems :: "string \<Rightarrow> string list" where
  "quotedItems [] = []"
| "quotedItems (c # cs) =
     (if isQuote c \<and> takeWhile (\<lambda>x. \<not> isQuote x) cs \<noteq> [] \<and> dropWhile (\<lambda>x. \<not> isQuote x) cs \<noteq> []
      then takeWhile (\<lambda>x. \<not> isQuote x) cs # quotedItems (tl (dropWhile (\<lambda>x. \<not> isQuote x) cs))
      else quotedItems cs)"
  by pat_completeness auto
termination
proof (relation "measure length")
  show "wf (measure length)" by simp
next
  fix c :: char and cs :: string
  have "length (tl (dropWhile (\<lambda>x. \<not> isQuote x) cs)) \<le> length cs"
    using length_dropWhile_le[of "\<lambda>x. \<not> isQuote x" cs] by simp
  then show "(tl (dropWhile (\<lambda>x. \<not> isQuote x) cs), c # cs) \<in> measure length" by simp
next
  fix c :: char and cs :: string
  show "(cs, c # cs) \<in> measure length" by simp
qed

declare quotedItems.simps [simp del]

section \<open>Regular expressions\<close>

text \<open>
  \<^verbatim>\<open>new RegExp(source)\<close> and \<^verbatim>\<open>pattern.test(p)\<close> belong to the platform. They are modelled on
  the patterns built from literal characters, escaped syntax characters, \<^verbatim>\<open>\d\<close>, the
  quantifier \<^verbatim>\<open>+\<close> on one of these, and groups of alternatives of such sequences, which
  includes every pattern the optimizer emits. For any other source the answer of the
  platform is a parameter of the model.
\<close>

datatype token = TChar char | TDigit | TPlus | TOpen | TClose | TBar

fun tokenize :: "string \<Rightarrow> token list option" where
  "tokenize [] = Some []"
| "tokenize [c] =
     (if c = CHR ''+'' then Some [TPlus]
      else if c = CHR ''('' then Some [TOpen]
      else if c = CHR '')'' then Some [TClose]
      else if c = CHR ''|'' then Some [TBar]
      else if c \<in> set syntaxChars then None
      else Some [TChar c])"
| "tokenize (c # d # cs) =
     (if c = backslash
      then (if d = CHR ''d'' then map_option ((#) TDigit) (tokenize cs)
            else if d \<in> set syntaxChars then map_option ((#) (TChar d)) (tokenize cs)
            else None)
      else if c = CHR ''+'' then map_option ((#) TPlus) (tokenize (d # cs))
      else if c = CHR ''('' then map_option ((#) TOpen) (tokenize (d # cs))
      else if c = CHR '')'' then map_option ((#) TClose) (tokenize (d # cs))
      else if c = CHR ''|'' then map_option ((#) TBar) (tokenize (d # cs))
      else if c \<in> set syntaxChars then None
      else map_option ((#) (TChar c)) (tokenize (d # cs)))"

datatype atom = AChar char | ADigit

datatype piece = Once atom | OneOrMore atom

datatype rterm = Piece piece | Choice "piece list list"

text \<open>A sequence of atoms, each with or without \<^verbatim>\<open>+\<close>.\<close>

fun parsePieces :: "token list \<Rightarrow> piece list option" where
  "parsePieces [] = Some []"
| "parsePieces (TChar c # TPlus # ts) = map_option ((#) (OneOrMore (AChar c))) (parsePieces ts)"
| "parsePieces (TChar c # ts) = map_option ((#) (Once (AChar c))) (parsePieces ts)"
| "parsePieces (TDigit # TPlus # ts) = map_option ((#) (OneOrMore ADigit)) (parsePieces ts)"
| "parsePieces (TDigit # ts) = map_option ((#) (Once ADigit)) (parsePieces ts)"
| "parsePieces _ = None"

fun splitBars :: "token list \<Rightarrow> token list list" where
  "splitBars [] = [[]]"
| "splitBars (t # ts) =
     (if t = TBar then [] # splitBars ts
      else (case splitBars ts of a # as \<Rightarrow> (t # a) # as | [] \<Rightarrow> [[t]]))"

fun allSome :: "'a option list \<Rightarrow> 'a list option" where
  "allSome [] = Some []"
| "allSome (None # xs) = None"
| "allSome (Some x # xs) = map_option ((#) x) (allSome xs)"

text \<open>A sequence of atoms and groups; a group is closed by the first closing parenthesis.\<close>

function parseTerms :: "token list \<Rightarrow> rterm list option" where
  "parseTerms ts =
     (case parsePieces (takeWhile (\<lambda>t. t \<noteq> TOpen) ts) of
        None \<Rightarrow> None
      | Some ps \<Rightarrow>
          (case dropWhile (\<lambda>t. t \<noteq> TOpen) ts of
             [] \<Rightarrow> Some (map Piece ps)
           | _ # afterOpen \<Rightarrow>
               (case dropWhile (\<lambda>t. t \<noteq> TClose) afterOpen of
                  [] \<Rightarrow> None
                | _ # rest \<Rightarrow>
                    (case allSome (map parsePieces (splitBars (takeWhile (\<lambda>t. t \<noteq> TClose) afterOpen))) of
                       None \<Rightarrow> None
                     | Some alts \<Rightarrow>
                         map_option (\<lambda>r. map Piece ps @ Choice alts # r) (parseTerms rest)))))"
  by pat_completeness auto
termination
proof (relation "measure length")
  show "wf (measure length)" by simp
next
  fix ts :: "token list" and x afterOpen y rest
  assume a: "dropWhile (\<lambda>t. t \<noteq> TOpen) ts = x # afterOpen"
    and b: "dropWhile (\<lambda>t. t \<noteq> TClose) afterOpen = y # rest"
  have "length (x # afterOpen) \<le> length ts"
    using length_dropWhile_le[of "\<lambda>t. t \<noteq> TOpen" ts] a by simp
  moreover have "length (y # rest) \<le> length afterOpen"
    using length_dropWhile_le[of "\<lambda>t. t \<noteq> TClose" afterOpen] b by simp
  ultimately show "(rest, ts) \<in> measure length" by simp
qed

declare parseTerms.simps [simp del]

definition parsePattern :: "string \<Rightarrow> rterm list option" where
  "parsePattern source = (case tokenize source of None \<Rightarrow> None | Some ts \<Rightarrow> parseTerms ts)"

definition atomMatches :: "atom \<Rightarrow> char \<Rightarrow> bool" where
  "atomMatches a c = (case a of AChar x \<Rightarrow> c = x | ADigit \<Rightarrow> isDigit c)"

text \<open>Matching at the start of a string: the list of the rests of the string after each way
  to match. A pattern matches at a position exactly when this list is not empty.\<close>

fun matchOneOrMore :: "atom \<Rightarrow> string \<Rightarrow> string list" where
  "matchOneOrMore a [] = []"
| "matchOneOrMore a (c # cs) = (if atomMatches a c then cs # matchOneOrMore a cs else [])"

fun matchPiece :: "piece \<Rightarrow> string \<Rightarrow> string list" where
  "matchPiece (Once a) [] = []"
| "matchPiece (Once a) (c # cs) = (if atomMatches a c then [cs] else [])"
| "matchPiece (OneOrMore a) s = matchOneOrMore a s"

fun matchPieces :: "piece list \<Rightarrow> string \<Rightarrow> string list" where
  "matchPieces [] s = [s]"
| "matchPieces (p # ps) s = concat (map (matchPieces ps) (matchPiece p s))"

fun matchTerm :: "rterm \<Rightarrow> string \<Rightarrow> string list" where
  "matchTerm (Piece p) s = matchPiece p s"
| "matchTerm (Choice alts) s = concat (map (\<lambda>ps. matchPieces ps s) alts)"

fun matchTerms :: "rterm list \<Rightarrow> string \<Rightarrow> string list" where
  "matchTerms [] s = [s]"
| "matchTerms (t # ts) s = concat (map (matchTerms ts) (matchTerm t s))"

text \<open>\<^verbatim>\<open>pattern.test(p)\<close> for a pattern without flags: a search, for a match that starts at
  any position of \<open>p\<close>.\<close>

fun regexTest :: "rterm list \<Rightarrow> string \<Rightarrow> bool" where
  "regexTest r [] = (matchTerms r [] \<noteq> [])"
| "regexTest r (c # cs) = (matchTerms r (c # cs) \<noteq> [] \<or> regexTest r cs)"

text \<open>\<^verbatim>\<open>new RegExp(source)\<close>: \<open>None\<close> when it throws. \<open>platform\<close> answers for the sources
  outside the modelled patterns.\<close>

definition compileRegExp :: "(string \<Rightarrow> (string \<Rightarrow> bool) option) \<Rightarrow> string \<Rightarrow> (string \<Rightarrow> bool) option" where
  "compileRegExp platform source =
     (case parsePattern source of
        Some r \<Rightarrow> Some (regexTest r)
      | None \<Rightarrow> platform source)"

section \<open>Ignore-list parser\<close>

text \<open>\<^verbatim>\<open>result.add(p)\<close> on a \<^verbatim>\<open>Set\<close>, which keeps insertion order.\<close>

definition addToSet :: "string list \<Rightarrow> string \<Rightarrow> string list" where
  "addToSet result p = (if p \<in> set result then result else result @ [p])"

definition startsWith :: "string \<Rightarrow> string \<Rightarrow> bool" where
  "startsWith s pre = prefix pre s"

text \<open>The body of the loop over the items.\<close>

definition resolveItem ::
  "(string \<Rightarrow> (string \<Rightarrow> bool) option) \<Rightarrow> string list \<Rightarrow> string list \<Rightarrow> string \<Rightarrow> string list" where
  "resolveItem platform allSelectablePaths result item =
     (if startsWith item ''re:''
      then (case compileRegExp platform (drop 3 item) of
              None \<Rightarrow> result
            | Some test \<Rightarrow>
                foldl (\<lambda>result p. if test p then addToSet result p else result) result allSelectablePaths)
      else if item \<in> set allSelectablePaths then addToSet result item
      else result)"

definition parseIgnoreItems ::
  "(string \<Rightarrow> (string \<Rightarrow> bool) option) \<Rightarrow> string \<Rightarrow> string list \<Rightarrow> string list" where
  "parseIgnoreItems platform text' allSelectablePaths =
     (case bracketMatch text' of
        None \<Rightarrow> []
      | Some inner \<Rightarrow> foldl (resolveItem platform allSelectablePaths) [] (quotedItems inner))"

section \<open>Notions used in the statements\<close>

text \<open>What a node is apart from its children: identifier, segment name, full path, role,
  selectability and count.\<close>

type_synonym nodeInfo = "string \<times> string \<times> string \<times> LayerType \<times> bool \<times> int option"

definition nodeInfo :: "LayerNode \<Rightarrow> nodeInfo" where
  "nodeInfo n = (node_id n, name n, fullPath n, ltype n, isSelectable n, paramCount n)"

text \<open>A tree up to the order of siblings: two sibling lists denote the same multiset of such
  trees exactly when one is a rearrangement of the other, at every level, with every node's
  attributes and shape kept.\<close>

datatype utree = UNode nodeInfo "utree multiset"

primrec unordered :: "LayerNode \<Rightarrow> utree" where
  "unordered (LayerNode i n f t cs s p) = UNode (i, n, f, t, s, p) (mset (map unordered cs))"

text \<open>Every digit name of the forest denotes an integer that a JavaScript number holds
  exactly.\<close>

function safeNames :: "LayerNode list \<Rightarrow> bool" where
  "safeNames nodes =
     (\<forall>n \<in> set nodes.
        (numberedPattern (name n) \<longrightarrow> parseInt10 (name n) < 2 ^ 53) \<and> safeNames (children n))"
  by pat_completeness auto
termination
  by (relation "measure (size_list size)") (auto simp: children_size)

declare safeNames.simps [simp del]

text \<open>The order the collapse pass establishes, at every level: the nodes with a name that is
  not a digit string, then the digit-named nodes in ascending order of their values.\<close>

function collapsedOrder :: "LayerNode list \<Rightarrow> bool" where
  "collapsedOrder nodes =
     (let k = length (takeWhile (\<lambda>n. \<not> numberedPattern (name n)) nodes) in
      (\<forall>n \<in> set (drop k nodes). numberedPattern (name n)) \<and>
      sorted (map (\<lambda>n. parseInt10 (name n)) (drop k nodes)) \<and>
      (\<forall>n \<in> set nodes. collapsedOrder (children n)))"
  by pat_completeness auto
termination
  by (relation "measure (size_list size)") (auto simp: children_size)

declare collapsedOrder.simps [simp del]

text \<open>Forward-pass order at every level.\<close>

function forwardSorted :: "LayerNode list \<Rightarrow> bool" where
  "forwardSorted nodes =
     (sorted (map (\<lambda>n. getForwardPassPriority (name n)) nodes) \<and>
      (\<forall>n \<in> set nodes. forwardSorted (children n)))"
  by pat_completeness auto
termination
  by (relation "measure (size_list size)") (auto simp: children_size)

declare forwardSorted.simps [simp del]

text \<open>The sum of the counts of all tensors of one module.\<close>

definition moduleTotal :: "(string \<times> int) list \<Rightarrow> string \<Rightarrow> int" where
  "moduleTotal tensorParamCounts p =
     sum_list (map snd (filter (\<lambda>(k, c). stripWeightSuffix k = p) tensorParamCounts))"

text \<open>Counts are attached at every level: a childless node carries \<open>tot\<close> of its path, any
  other node the sum of its children's counts.\<close>

function countsAttached :: "(string \<Rightarrow> int) \<Rightarrow> LayerNode list \<Rightarrow> bool" where
  "countsAttached tot nodes =
     (\<forall>n \<in> set nodes.
        if children n = [] then paramCount n = Some (tot (fullPath n))
        else paramCount n = Some (sum_list (map (\<lambda>c. orZero (paramCount c)) (children n))) \<and>
             countsAttached tot (children n))"
  by pat_completeness auto
termination
  by (relation "measure (\<lambda>(t, nodes). size_list size nodes)") (auto simp: children_size)

declare countsAttached.simps [simp del]

primrec eraseCounts :: "LayerNode \<Rightarrow> LayerNode" where
  "eraseCounts (LayerNode i n f t cs s p) = LayerNode i n f t (map eraseCounts cs) s None"

text \<open>Element counts are natural numbers whose sum a JavaScript number holds exactly, so
  that every sum the aggregator forms is exact.\<close>

definition exactCounts :: "(string \<times> int) list \<Rightarrow> bool" where
  "exactCounts tensorParamCounts =
     (list_all (\<lambda>entry. 0 \<le> snd entry) tensorParamCounts \<and>
      sum_list (map snd tensorParamCounts) < 2 ^ 53)"

subsection \<open>Example trees\<close>

definition exampleLeaf :: "string \<Rightarrow> string \<Rightarrow> LayerType \<Rightarrow> LayerNode" where
  "exampleLeaf parent nm t = LayerNode (parent @ ''.'' @ nm) nm (parent @ ''.'' @ nm) t [] True None"

definition numberedSiblings :: "LayerNode list" where
  "numberedSiblings =
     [exampleLeaf ''h'' ''10'' Group, exampleLeaf ''h'' ''2'' Group,
      exampleLeaf ''h'' ''1'' Group, exampleLeaf ''h'' ''mlp'' Mlp]"

definition layerChildren :: "LayerNode list" where
  "layerChildren =
     [exampleLeaf ''layers.0'' ''mlp'' Mlp, exampleLeaf ''layers.0'' ''self_attn'' Attention,
      exampleLeaf ''layers.0'' ''input_layernorm'' Norm,
      exampleLeaf ''layers.0'' ''post_attention_layernorm'' Norm]"

definition orderedLayer :: "LayerNode list" where
  "orderedLayer =
     [exampleLeaf ''layers.0'' ''input_layernorm'' Norm, exampleLeaf ''layers.0'' ''self_attn'' Attention,
      exampleLeaf ''layers.0'' ''mlp'' Mlp]"

definition countedTree :: "LayerNode list" where
  "countedTree =
     [LayerNode ''block'' ''block'' ''block'' Group
        [exampleLeaf ''block'' ''fc1'' Mlp, exampleLeaf ''block'' ''fc2'' Mlp] False None,
      exampleLeaf ''block2'' ''absent'' Group]"

definition countedTensors :: "(string \<times> int) list" where
  "countedTensors = [(''block.fc1.weight'', 60), (''block.fc2.weight'', 250), (''block.fc1.bias'', 40)]"

subsection \<open>Example selections\<close>

definition fiveUniverse :: "string list" where
  "fiveUniverse = [''model.embed_tokens'', ''model.layers.0.self_attn.q_proj'',
     ''model.layers.0.mlp.down_proj'', ''model.norm'', ''lm_head'']"

definition downProj :: "nat \<Rightarrow> string" where
  "downProj i = ''model.layers.'' @ showNat i @ ''.mlp.down_proj''"

definition downProjUniverse :: "string list" where
  "downProjUniverse = map downProj [0..<32]"

text \<open>A platform that rejects every pattern outside the modelled ones.\<close>

definition noPlatform :: "string \<Rightarrow> (string \<Rightarrow> bool) option" where
  "noPlatform source = None"

definition editedText :: string where
  "editedText = [dquote] @ ''x'' @ [dquote] @ '' ignore=['' @ [dquote] @ ''a'' @ [dquote] @ '', '' @
                [squote] @ ''b'' @ [squote] @ ''] ['' @ [dquote] @ ''c'' @ [dquote] @ '']''"

subsection \<open>The language of a pattern\<close>

text \<open>The strings a pattern matches as a whole, by the structure of the pattern.\<close>

definition langPiece :: "piece \<Rightarrow> string set" where
  "langPiece p =
     (case p of
        Once a \<Rightarrow> {[c] | c. atomMatches a c}
      | OneOrMore a \<Rightarrow> {v. v \<noteq> [] \<and> list_all (atomMatches a) v})"

fun langPieces :: "piece list \<Rightarrow> string set" where
  "langPieces [] = {[]}"
| "langPieces (p # ps) = {a @ b | a b. a \<in> langPiece p \<and> b \<in> langPieces ps}"

definition langTerm :: "rterm \<Rightarrow> string set" where
  "langTerm t =
     (case t of
        Piece p \<Rightarrow> langPiece p
      | Choice alts \<Rightarrow> (\<Union>ps \<in> set alts. langPieces ps))"

fun langTerms :: "rterm list \<Rightarrow> string set" where
  "langTerms [] = {[]}"
| "langTerms (t # ts) = {a @ b | a b. a \<in> langTerm t \<and> b \<in> langTerms ts}"

subsection \<open>The two patterns the optimizer emits\<close>

definition literalPieces :: "string \<Rightarrow> piece list" where
  "literalPieces w = map (\<lambda>c. Once (AChar c)) w"

definition literalTerms :: "string \<Rightarrow> rterm list" where
  "literalTerms w = map (\<lambda>c. Piece (Once (AChar c))) w"

definition wildcardPattern :: "string \<Rightarrow> string \<Rightarrow> rterm list" where
  "wildcardPattern pre suf = literalTerms pre @ [Piece (OneOrMore ADigit)] @ literalTerms suf"

definition alternationPattern :: "string \<Rightarrow> nat list \<Rightarrow> string \<Rightarrow> rterm list" where
  "alternationPattern pre idxs suf =
     literalTerms pre @ [Choice (map (\<lambda>i. literalPieces (showNat i)) idxs)] @ literalTerms suf"

definition visionUniverse :: "string list" where
  "visionUniverse = [''model.layers.0.mlp.down_proj'', ''vision_model.layers.0.mlp.down_proj'']"

subsection \<open>Notions for the round trip\<close>

text \<open>The last split of \<open>acc @ rest\<close> whose prefix extends \<open>acc\<close>.\<close>

definition lastSplit :: "string \<Rightarrow> string \<Rightarrow> (string \<times> string \<times> string) option" where
  "lastSplit acc rest = (case rev (templateSplits acc rest) of [] \<Rightarrow> None | m # _ \<Rightarrow> Some m)"

text \<open>The template of a path, when it has one.\<close>

definition templateOf :: "string \<Rightarrow> string option" where
  "templateOf p = map_option fst (toTemplate p)"

text \<open>A path that can stand between quotes in the ignore list and is read back as a literal:
  it is not empty, does not start with \<open>re:\<close>, and has no quote, closing bracket or opening
  brace.\<close>

definition plainPath :: "string \<Rightarrow> bool" where
  "plainPath p =
     (p \<noteq> [] \<and> \<not> startsWith p ''re:'' \<and>
      list_all (\<lambda>c. c \<noteq> dquote \<and> c \<noteq> squote \<and> c \<noteq> CHR '']'' \<and> c \<noteq> CHR ''{'') p)"

text \<open>The layer index of a path, if it has one, is written in the way \<^verbatim>\<open>String\<close> writes it (no
  leading zero) and is an exact integer.\<close>

definition canonicalIndex :: "string \<Rightarrow> bool" where
  "canonicalIndex p =
     (case matchTemplate p of
        None \<Rightarrow> True
      | Some (pre, ds, suf) \<Rightarrow> showNat (parseInt10 ds) = ds \<and> parseInt10 ds < 2 ^ 53)"

text \<open>\<open>p\<close> contains prefix, digits and suffix, and more text before or after them.\<close>

definition properInstance :: "string \<Rightarrow> string \<Rightarrow> string \<Rightarrow> bool" where
  "properInstance pre suf p =
     (\<exists>u ds v. p = u @ pre @ ds @ suf @ v \<and> ds \<noteq> [] \<and> list_all isDigit ds \<and> (u \<noteq> [] \<or> v \<noteq> []))"

text \<open>No path of the universe contains an instance of the template of a selected path as a
  proper part.\<close>

definition anchored :: "string list \<Rightarrow> string list \<Rightarrow> bool" where
  "anchored selectedPaths allSelectablePaths =
     (\<forall>q \<in> set selectedPaths. \<forall>p \<in> set allSelectablePaths.
        case matchTemplate q of
          None \<Rightarrow> True
        | Some (pre, ds, suf) \<Rightarrow> \<not> properInstance pre suf p)"

definition indexOf :: "string \<Rightarrow> nat" where
  "indexOf p = (case toTemplate p of None \<Rightarrow> 0 | Some (t, i) \<Rightarrow> i)"

text \<open>What the first loop of the optimizer maintains: one group per template of the paths
  seen so far, with the prefix and suffix of a path of that template and the indices of
  all paths of that template, in the order of the paths.\<close>

definition groupsInv :: "string list \<Rightarrow> (string \<times> TemplateGroup) list \<Rightarrow> bool" where
  "groupsInv seen groups =
     (distinct (map fst groups) \<and>
      set (map fst groups) = {t. \<exists>p \<in> set seen. templateOf p = Some t} \<and>
      (\<forall>(k, g) \<in> set groups.
         grp_indices g = map indexOf (filter (\<lambda>p. templateOf p = Some k) seen) \<and>
         (\<exists>q \<in> set seen. \<exists>dq. matchTemplate q = Some (grp_prefix g, dq, grp_suffix g) \<and>
            k = grp_prefix g @ ''{{INDEX}}'' @ grp_suffix g)))"

text \<open>An item that the ignore-list text gives back: not empty, without quotes and without a
  closing bracket.\<close>

definition quotable :: "string \<Rightarrow> bool" where
  "quotable item = (item \<noteq> [] \<and> (\<forall>c \<in> set item. \<not> isQuote c \<and> c \<noteq> CHR '']''))"

text \<open>A universe with an untemplated path, six paths of one template and two of another, and
  a selection that takes the literal, the alternation and the wildcard branch.\<close>

definition mixedUniverse :: "string list" where
  "mixedUniverse = [''lm_head'', ''h.0.w'', ''h.1.w'', ''h.2.w'', ''h.3.w'', ''h.4.w'', ''h.5.w'',
     ''g.0.w'', ''g.1.w'', ''e.7.w'', ''e.8.w'']"

definition mixedSelection :: "string list" where
  "mixedSelection = [''h.4.w'', ''lm_head'', ''h.0.w'', ''g.0.w'', ''h.1.w'', ''g.1.w'', ''h.2.w'', ''e.8.w'']"

text \<open>Universes in which a path contains a path of another template.\<close>

definition textUniverse :: "string list" where
  "textUniverse = [''model.layers.0.mlp.down_proj'', ''model.layers.1.mlp.down_proj'',
     ''text_model.layers.0.mlp.down_proj'']"

definition nestedUniverse :: "string list" where
  "nestedUniverse = [''h.0.w'', ''h.1.w'', ''h.2.w'', ''h.3.w'', ''h.4.w'', ''x.h.3.w'']"

section \<open>Properties of the role classifier\<close>

lemma lower_post_attention_layernorm:
  "toLowerCase ''post_attention_layernorm'' = ''post_attention_layernorm''"
  by code_simp

lemma post_attention_layernorm_markers:
  "includes_str ''post_attention_layernorm'' ''norm''"
  "\<not> includes_str ''post_attention_layernorm'' ''embed''"
  "includes_str ''post_attention_layernorm'' ''attention''"
  by code_simp+

lemma classify_norm:
  assumes "includes_str (toLowerCase s) ''norm'' \<or>
     toLowerCase s \<in> set [''ln_1'', ''ln_2'', ''ln_f'', ''final_layer_norm'', ''input_layernorm'',
                            ''post_attention_layernorm'', ''layer_norm1'', ''layer_norm2'']"
    and "\<not> (includes_str (toLowerCase s) ''embed'' \<or> toLowerCase s = ''wte'' \<or> toLowerCase s = ''wpe'')"
  shows "classifySegment s fp = Norm"
proof -
  define t where "t = toLowerCase s"
  have e: "\<not> (includes_str t ''embed'' \<or> t = ''wte'' \<or> t = ''wpe'')"
    using assms(2) by (simp add: t_def)
  have n: "includes_str t ''norm'' \<or> includes_str t ''layernorm'' \<or> t = ''ln_1'' \<or> t = ''ln_2'' \<or>
              t = ''ln_f'' \<or> t = ''final_layer_norm'' \<or> t = ''input_layernorm'' \<or>
              t = ''post_attention_layernorm'' \<or> t = ''layer_norm1'' \<or> t = ''layer_norm2''"
    using assms(1) unfolding t_def [symmetric] by (elim disjE) simp_all
  show ?thesis
    unfolding classifySegment_def Let_def t_def [symmetric]
    by (simp only: e n if_True if_False)
qed

text \<open>
  Claim C4. The classifier tests the normalization markers before the attention markers:
  \<open>post_attention_layernorm\<close>, which contains \<open>attention\<close>, is classified as norm for every
  full path, never as attention. In general a segment whose lower-case form contains
  \<open>norm\<close> or is one of the norm aliases is classified as norm, unless it carries an
  embedding marker (\<open>embed\<close> as a substring, or the names \<open>wte\<close> and \<open>wpe\<close>).
\<close>

theorem classifySegment_norm_precedes_attention:
  "includes_str (toLowerCase ''post_attention_layernorm'') ''attention'' \<and>
   classifySegment ''post_attention_layernorm'' fp = Norm \<and>
   classifySegment ''post_attention_layernorm'' fp \<noteq> Attention \<and>
   ((includes_str (toLowerCase s) ''norm'' \<or>
     toLowerCase s \<in> set [''ln_1'', ''ln_2'', ''ln_f'', ''final_layer_norm'', ''input_layernorm'',
                            ''post_attention_layernorm'', ''layer_norm1'', ''layer_norm2'']) \<longrightarrow>
    \<not> (includes_str (toLowerCase s) ''embed'' \<or> toLowerCase s = ''wte'' \<or> toLowerCase s = ''wpe'') \<longrightarrow>
    classifySegment s fp = Norm)"
proof -
  have 1: "classifySegment ''post_attention_layernorm'' fp = Norm"
    by (rule classify_norm)
       (simp_all add: lower_post_attention_layernorm post_attention_layernorm_markers)
  show ?thesis
    using 1 classify_norm[of s fp]
    by (simp add: lower_post_attention_layernorm post_attention_layernorm_markers)
qed

lemma lower_Input_LayerNorm: "toLowerCase ''Input_LayerNorm'' = ''input_layernorm''"
  by code_simp

lemma input_layernorm_markers:
  "includes_str ''input_layernorm'' ''norm''"
  "\<not> includes_str ''input_layernorm'' ''embed''"
  by code_simp+

theorem classifySegment_norm_witness:
  "classifySegment ''post_attention_layernorm'' ''model.layers.0.post_attention_layernorm'' = Norm \<and>
   includes_str (toLowerCase ''Input_LayerNorm'') ''norm'' \<and>
   classifySegment ''Input_LayerNorm'' ''model.layers.0.self_attn.Input_LayerNorm'' = Norm"
  using classifySegment_norm_precedes_attention
          [of "''model.layers.0.post_attention_layernorm''" "''Input_LayerNorm''"]
        classifySegment_norm_precedes_attention
          [of "''model.layers.0.self_attn.Input_LayerNorm''" "''Input_LayerNorm''"]
  by (simp add: lower_Input_LayerNorm input_layernorm_markers)

section \<open>Properties of the tree passes\<close>

lemma name_withChildren [simp]: "name (withChildren n cs) = name n"
  and children_withChildren [simp]: "children (withChildren n cs) = cs"
  by (simp_all add: withChildren_def)

lemma unordered_withChildren:
  "unordered (withChildren n cs) = UNode (nodeInfo n) (mset (map unordered cs))"
  by (cases n) (simp add: withChildren_def nodeInfo_def)

lemma unordered_node: "unordered n = UNode (nodeInfo n) (mset (map unordered (children n)))"
  by (cases n) (simp add: nodeInfo_def)

lemma withChildren_same: "cs = children n \<Longrightarrow> withChildren n cs = n"
  by (cases n) (simp add: withChildren_def)

subsection \<open>Numbered-layer collapse\<close>

lemma collapse_eq:
  "collapseNumberedLayers nodes =
     map (\<lambda>n. withChildren n (collapseNumberedLayers (children n)))
       (filter (\<lambda>n. \<not> numberedPattern (name n)) nodes @
        sort_key (\<lambda>n. parseInt10 (name n)) (filter (\<lambda>n. numberedPattern (name n)) nodes))"
  by (subst collapseNumberedLayers.simps) (simp add: splitNumbered_filter Let_def)

lemma collapse_same_tree:
  "image_mset unordered (mset (collapseNumberedLayers nodes)) = image_mset unordered (mset nodes)"
proof (induction nodes rule: collapseNumberedLayers.induct)
  case (1 nodes)
  have eq: "unordered (withChildren x (collapseNumberedLayers (children x))) = unordered x"
    if "x \<in> set nodes" for x
  proof -
    have "x \<in> set (fst (splitNumbered nodes)) \<or> x \<in> set (snd (splitNumbered nodes))"
      using that by (auto simp: splitNumbered_filter)
    then have "image_mset unordered (mset (collapseNumberedLayers (children x))) =
          image_mset unordered (mset (children x))"
      using 1 by auto
    then show ?thesis
      by (simp add: unordered_withChildren unordered_node[of x])
  qed
  let ?f = "\<lambda>x. unordered (withChildren x (collapseNumberedLayers (children x)))"
  have "image_mset unordered (mset (collapseNumberedLayers nodes)) =
        image_mset ?f (filter_mset (\<lambda>n. \<not> numberedPattern (name n)) (mset nodes)) +
        image_mset ?f (filter_mset (\<lambda>n. numberedPattern (name n)) (mset nodes))"
    by (subst collapse_eq) (simp add: image_mset.compositionality comp_def)
  also have "\<dots> = image_mset ?f (mset nodes)"
    by (metis image_mset_union multiset_partition union_commute)
  also have "\<dots> = image_mset unordered (mset nodes)"
    by (rule image_mset_cong) (simp add: eq)
  finally show ?case .
qed

lemma takeWhile_append_all:
  assumes "\<forall>x \<in> set xs. P x" "\<forall>y \<in> set ys. \<not> P y"
  shows "takeWhile P (xs @ ys) = xs"
  using assms by (induction xs) (auto simp: takeWhile_eq_Nil_iff)

lemma collapse_ordered: "collapsedOrder (collapseNumberedLayers nodes)"
proof (induction nodes rule: collapseNumberedLayers.induct)
  case (1 nodes)
  let ?g = "\<lambda>n. withChildren n (collapseNumberedLayers (children n))"
  let ?o = "filter (\<lambda>n. \<not> numberedPattern (name n)) nodes"
  let ?n = "sort_key (\<lambda>n. parseInt10 (name n)) (filter (\<lambda>n. numberedPattern (name n)) nodes)"
  have tw: "takeWhile (\<lambda>n. \<not> numberedPattern (name n)) (map ?g ?o @ map ?g ?n) = map ?g ?o"
    by (rule takeWhile_append_all) auto
  have ch: "collapsedOrder (children n)" if "n \<in> set (collapseNumberedLayers nodes)" for n
  proof -
    from that obtain x where x: "x \<in> set nodes" and n: "n = ?g x"
      by (subst (asm) collapse_eq) auto
    have "x \<in> set (fst (splitNumbered nodes)) \<or> x \<in> set (snd (splitNumbered nodes))"
      using x by (auto simp: splitNumbered_filter)
    then show ?thesis using 1 n by auto
  qed
  have top: "collapseNumberedLayers nodes = map ?g ?o @ map ?g ?n"
    by (subst collapse_eq) simp
  show ?case
    apply (subst collapsedOrder.simps)
    unfolding Let_def
    apply (intro conjI)
    subgoal unfolding top tw by auto
    subgoal unfolding top tw by (simp add: comp_def)
    subgoal using ch by blast
    done
qed

lemma numbered_examples:
  "numberedPattern ''10''" "numberedPattern ''2''" "numberedPattern ''1''"
  "\<not> numberedPattern ''mlp''"
  "parseInt10 ''10'' = 10" "parseInt10 ''2'' = 2" "parseInt10 ''1'' = 1"
  by code_simp+

lemma collapse_names:
  "map name (collapseNumberedLayers nodes) =
     map name (filter (\<lambda>n. \<not> numberedPattern (name n)) nodes) @
     map name (sort_key (\<lambda>n. parseInt10 (name n)) (filter (\<lambda>n. numberedPattern (name n)) nodes))"
  by (subst collapse_eq) (simp add: comp_def)

lemma collapse_example:
  assumes "map name nodes = [''10'', ''2'', ''1'', ''mlp'']"
  shows "map name (collapseNumberedLayers nodes) = [''mlp'', ''1'', ''2'', ''10'']"
proof -
  from assms obtain a b c d where n: "nodes = [a, b, c, d]"
    and "name a = ''10''" "name b = ''2''" "name c = ''1''" "name d = ''mlp''"
    by (auto simp: map_eq_Cons_conv)
  then show ?thesis
    unfolding collapse_names n by (simp add: numbered_examples)
qed

text \<open>
  Claim C5. On every sibling list the collapse pass puts the nodes whose name is not a
  digit string first, in their given order, then the digit-named nodes in the stable
  ascending order of their integer values, and recurses into the children of every node
  (first conjunct; it holds of the list of children of every node again, so the order
  \<open>collapsedOrder\<close> holds at every level: second conjunct). No node is added, dropped or
  changed in identifier, name, path, role, selectability or count, and every node keeps
  its children up to their order (third conjunct). Siblings named 10, 2, 1, mlp come out
  as mlp, 1, 2, 10. Digit names are taken within the range of exact integers.
\<close>

theorem collapseNumberedLayers_order:
  assumes "safeNames nodes"
  shows "collapseNumberedLayers nodes =
           map (\<lambda>n. withChildren n (collapseNumberedLayers (children n)))
             (filter (\<lambda>n. \<not> numberedPattern (name n)) nodes @
              sort_key (\<lambda>n. parseInt10 (name n)) (filter (\<lambda>n. numberedPattern (name n)) nodes)) \<and>
         collapsedOrder (collapseNumberedLayers nodes) \<and>
         image_mset unordered (mset (collapseNumberedLayers nodes)) =
           image_mset unordered (mset nodes) \<and>
         (map name nodes = [''10'', ''2'', ''1'', ''mlp''] \<longrightarrow>
          map name (collapseNumberedLayers nodes) = [''mlp'', ''1'', ''2'', ''10''])"
  using collapse_eq[of nodes] collapse_ordered[of nodes] collapse_same_tree[of nodes]
    collapse_example[of nodes]
  by blast

lemma safeNames_Nil: "safeNames []"
  by (subst safeNames.simps) simp

lemma numberedSiblings_safe: "safeNames numberedSiblings"
  by (subst safeNames.simps)
     (simp add: numberedSiblings_def exampleLeaf_def numbered_examples safeNames_Nil)

lemma numberedSiblings_names: "map name numberedSiblings = [''10'', ''2'', ''1'', ''mlp'']"
  by (simp add: numberedSiblings_def exampleLeaf_def)

theorem collapseNumberedLayers_order_witness:
  "safeNames numberedSiblings \<and>
   map name numberedSiblings = [''10'', ''2'', ''1'', ''mlp''] \<and>
   map name (collapseNumberedLayers numberedSiblings) = [''mlp'', ''1'', ''2'', ''10''] \<and>
   collapsedOrder (collapseNumberedLayers numberedSiblings)"
  using collapseNumberedLayers_order[OF numberedSiblings_safe, THEN conjunct2]
    numberedSiblings_safe numberedSiblings_names
  by simp

subsection \<open>Forward-pass order\<close>

lemma sortForwardPass_Nil: "sortForwardPass [] = []"
  by (subst sortForwardPass.simps) simp

lemma sortForwardPass_same_tree:
  "image_mset unordered (mset (sortForwardPass nodes)) = image_mset unordered (mset nodes)"
proof (induction nodes rule: sortForwardPass.induct)
  case (1 nodes)
  have eq: "unordered (withChildren x (sortForwardPass (children x))) = unordered x"
    if "x \<in> set nodes" for x
  proof -
    have "image_mset unordered (mset (sortForwardPass (children x))) =
          image_mset unordered (mset (children x))"
      using 1 that by simp
    then show ?thesis
      by (simp add: unordered_withChildren unordered_node[of x])
  qed
  have "image_mset unordered (mset (sortForwardPass nodes)) =
        image_mset (\<lambda>x. unordered (withChildren x (sortForwardPass (children x)))) (mset nodes)"
    by (subst sortForwardPass.simps) (simp add: image_mset.compositionality comp_def)
  also have "\<dots> = image_mset unordered (mset nodes)"
    by (rule image_mset_cong) (simp add: eq)
  finally show ?case .
qed

lemma sortForwardPass_sorted: "forwardSorted (sortForwardPass nodes)"
proof (induction nodes rule: sortForwardPass.induct)
  case (1 nodes)
  show ?case
    apply (subst sortForwardPass.simps)
    apply (subst forwardSorted.simps)
    using 1 by (auto simp: comp_def)
qed

lemma sortForwardPass_fixed: "forwardSorted nodes \<Longrightarrow> sortForwardPass nodes = nodes"
proof (induction nodes rule: sortForwardPass.induct)
  case (1 nodes)
  from "1.prems" have s: "sorted (map (\<lambda>n. getForwardPassPriority (name n)) nodes)"
    and c: "\<And>n. n \<in> set nodes \<Longrightarrow> forwardSorted (children n)"
    by (subst (asm) forwardSorted.simps, simp)+
  have id: "sort_key (\<lambda>node. getForwardPassPriority (name node)) nodes = nodes"
    using s by (rule sort_key_id_if_sorted)
  have "map (\<lambda>node. withChildren node (sortForwardPass (children node))) nodes = map (\<lambda>n. n) nodes"
  proof (rule map_cong[OF refl])
    fix x assume x: "x \<in> set nodes"
    then have "sortForwardPass (children x) = children x" using 1 c by simp
    then show "withChildren x (sortForwardPass (children x)) = x"
      by (simp add: withChildren_same)
  qed
  then show ?case by (subst sortForwardPass.simps) (simp add: id)
qed

lemma sortForwardPass_stable:
  "map nodeInfo (filter (\<lambda>n. getForwardPassPriority (name n) = k) (sortForwardPass nodes)) =
   map nodeInfo (filter (\<lambda>n. getForwardPassPriority (name n) = k) nodes)"
proof -
  have i: "nodeInfo (withChildren n cs) = nodeInfo n" for n cs
    by (simp add: nodeInfo_def withChildren_def)
  show ?thesis
    by (subst sortForwardPass.simps)
       (simp add: filter_map comp_def i sort_key_stable)
qed

lemma layer_priorities:
  "getForwardPassPriority ''mlp'' = 53 / 10"
  "getForwardPassPriority ''self_attn'' = 51 / 10"
  "getForwardPassPriority ''input_layernorm'' = 5"
  "getForwardPassPriority ''post_attention_layernorm'' = 52 / 10"
  by code_simp+

lemma sortForwardPass_names:
  "map name (sortForwardPass nodes) =
     map name (sort_key (\<lambda>n. getForwardPassPriority (name n)) nodes)"
  by (subst sortForwardPass.simps) (simp add: comp_def)

lemma sortForwardPass_example:
  assumes "map name nodes = [''mlp'', ''self_attn'', ''input_layernorm'', ''post_attention_layernorm'']"
  shows "map name (sortForwardPass nodes) =
           [''input_layernorm'', ''self_attn'', ''post_attention_layernorm'', ''mlp'']"
proof -
  from assms obtain a b c d where n: "nodes = [a, b, c, d]"
    and "name a = ''mlp''" "name b = ''self_attn''" "name c = ''input_layernorm''"
      "name d = ''post_attention_layernorm''"
    by (auto simp: map_eq_Cons_conv)
  then show ?thesis
    unfolding sortForwardPass_names n by (simp add: layer_priorities)
qed

lemma priority_case_insensitive:
  "toLowerCase a = toLowerCase b \<Longrightarrow> getForwardPassPriority a = getForwardPassPriority b"
  by (simp add: getForwardPassPriority_def)

text \<open>
  Claim C6. \<open>sortForwardPass\<close> returns the same tree up to the order of siblings: the same
  nodes with the same attributes (identifier, name, path, role, selectability, count) and
  the same shape. Every sibling list of the result, at every level, is sorted by the
  priority of the nodes' own names, which does not depend on the case of the letters;
  nodes of equal priority keep their relative order, and the children named mlp,
  self_attn, input_layernorm, post_attention_layernorm of a layer come out as
  input_layernorm, self_attn, post_attention_layernorm, mlp.
\<close>

theorem sortForwardPass_reorders:
  "image_mset unordered (mset (sortForwardPass nodes)) = image_mset unordered (mset nodes) \<and>
   forwardSorted (sortForwardPass nodes) \<and>
   sortForwardPass nodes =
     map (\<lambda>n. withChildren n (sortForwardPass (children n)))
       (sort_key (\<lambda>n. getForwardPassPriority (name n)) nodes) \<and>
   map nodeInfo (filter (\<lambda>n. getForwardPassPriority (name n) = k) (sortForwardPass nodes)) =
     map nodeInfo (filter (\<lambda>n. getForwardPassPriority (name n) = k) nodes) \<and>
   (toLowerCase a = toLowerCase b \<longrightarrow> getForwardPassPriority a = getForwardPassPriority b) \<and>
   (map name nodes = [''mlp'', ''self_attn'', ''input_layernorm'', ''post_attention_layernorm''] \<longrightarrow>
    map name (sortForwardPass nodes) =
      [''input_layernorm'', ''self_attn'', ''post_attention_layernorm'', ''mlp''])"
  using sortForwardPass_same_tree[of nodes] sortForwardPass_sorted[of nodes]
    sortForwardPass.simps[of nodes] sortForwardPass_stable[of k nodes]
    sortForwardPass_example[of nodes] priority_case_insensitive[of a b]
  by blast

lemma layerChildren_names:
  "map name layerChildren = [''mlp'', ''self_attn'', ''input_layernorm'', ''post_attention_layernorm'']"
  by (simp add: layerChildren_def exampleLeaf_def)

theorem sortForwardPass_reorders_witness:
  "map name layerChildren = [''mlp'', ''self_attn'', ''input_layernorm'', ''post_attention_layernorm''] \<and>
   map name (sortForwardPass layerChildren) =
     [''input_layernorm'', ''self_attn'', ''post_attention_layernorm'', ''mlp''] \<and>
   forwardSorted (sortForwardPass layerChildren)"
  using sortForwardPass_reorders[of layerChildren 0 "''MLP''" "''mlp''"] layerChildren_names
  by blast

text \<open>
  Claim C8. \<open>sortForwardPass\<close> leaves a tree that is in forward-pass order at every level as
  it is (the sort is stable, so equal priorities keep their order), and therefore sorting
  twice is the same as sorting once.
\<close>

theorem sortForwardPass_idempotent:
  "(forwardSorted nodes \<longrightarrow> sortForwardPass nodes = nodes) \<and>
   sortForwardPass (sortForwardPass nodes) = sortForwardPass nodes"
  using sortForwardPass_fixed[of nodes] sortForwardPass_fixed[OF sortForwardPass_sorted[of nodes]]
  by blast

lemma forwardSorted_Nil: "forwardSorted []"
  by (subst forwardSorted.simps) simp

lemma orderedLayer_sorted: "forwardSorted orderedLayer"
  by (subst forwardSorted.simps)
     (simp add: orderedLayer_def exampleLeaf_def layer_priorities forwardSorted_Nil)

theorem sortForwardPass_idempotent_witness:
  "forwardSorted orderedLayer \<and> sortForwardPass orderedLayer = orderedLayer \<and>
   sortForwardPass (sortForwardPass layerChildren) = sortForwardPass layerChildren"
  using sortForwardPass_idempotent[of orderedLayer] sortForwardPass_idempotent[of layerChildren]
    orderedLayer_sorted
  by blast

subsection \<open>Parameter counts\<close>

lemma foldl_addTensor:
  "foldl addTensor m tpc p =
   (if \<exists>(k, c) \<in> set tpc. stripWeightSuffix k = p
    then Some (orZero (m p) + moduleTotal tpc p) else m p)"
proof (induction tpc arbitrary: m)
  case Nil
  then show ?case by simp
next
  case (Cons a tpc)
  obtain k c where a: "a = (k, c)" by (cases a)
  have step: "addTensor m (k, c) p =
      (if stripWeightSuffix k = p then Some (orZero (m p) + c) else m p)"
    by (auto simp: addTensor_def Let_def)
  show ?case
    unfolding a foldl_Cons Cons.IH step
    by (auto simp: moduleTotal_def orZero_def)
qed

lemma buildModuleParams_total:
  "buildModuleParams tpc p =
     (if \<exists>(k, c) \<in> set tpc. stripWeightSuffix k = p then Some (moduleTotal tpc p) else None)"
  unfolding buildModuleParams_def by (subst foldl_addTensor) (simp add: orZero_def)

lemma moduleTotal_absent:
  "\<not> (\<exists>(k, c) \<in> set tpc. stripWeightSuffix k = p) \<Longrightarrow> moduleTotal tpc p = 0"
proof -
  assume "\<not> (\<exists>(k, c) \<in> set tpc. stripWeightSuffix k = p)"
  then have "filter (\<lambda>(k, c). stripWeightSuffix k = p) tpc = []"
    by (auto simp: filter_empty_conv)
  then show ?thesis by (simp add: moduleTotal_def)
qed

lemma orZero_buildModuleParams: "orZero (buildModuleParams tpc p) = moduleTotal tpc p"
  by (cases "\<exists>(k, c) \<in> set tpc. stripWeightSuffix k = p")
     (simp_all add: buildModuleParams_total orZero_def moduleTotal_absent)

lemma foldl_counts: "foldl (\<lambda>sum c. sum + orZero (paramCount c)) a cs =
    a + sum_list (map (\<lambda>c. orZero (paramCount c)) cs)"
  by (induction cs arbitrary: a) simp_all

lemma paramCount_withParamCount [simp]: "paramCount (withParamCount n c) = Some c"
  and children_withParamCount [simp]: "children (withParamCount n c) = children n"
  and fullPath_withParamCount [simp]: "fullPath (withParamCount n c) = fullPath n"
  and fullPath_withChildren [simp]: "fullPath (withChildren n cs) = fullPath n"
  by (simp_all add: withParamCount_def withChildren_def)

lemma length_attach: "length (attach m nodes) = length nodes"
  by (subst attach.simps) simp

lemma attach_empty: "attach m nodes = [] \<longleftrightarrow> nodes = []"
  using length_attach[of m nodes] by (metis length_0_conv)

lemma attach_counts: "countsAttached (\<lambda>p. orZero (m p)) (attach m nodes)"
proof (induction m nodes rule: attach.induct)
  case (1 m nodes)
  show ?case
    apply (subst attach.simps)
    apply (subst countsAttached.simps)
    using 1 by (auto simp: Let_def foldl_counts attach_empty)
qed

lemma eraseCounts_withParamCount:
  "eraseCounts (withParamCount n c) = eraseCounts n"
  by (cases n) (simp add: withParamCount_def)

lemma eraseCounts_node:
  "map eraseCounts cs = map eraseCounts (children n) \<Longrightarrow>
   eraseCounts (withChildren n cs) = eraseCounts n"
  by (cases n) (simp add: withChildren_def)

lemma attach_structure: "map eraseCounts (attach m nodes) = map eraseCounts nodes"
proof (induction m nodes rule: attach.induct)
  case (1 m nodes)
  show ?case
    apply (subst attach.simps)
    using 1 by (auto simp: Let_def eraseCounts_withParamCount eraseCounts_node)
qed

lemma attach_Nil: "attach m [] = []"
  by (subst attach.simps) simp

lemma attach_container:
  assumes "children n = [a, b]" "children a = []" "children b = []"
    and "moduleTotal tpc (fullPath a) = 100" "moduleTotal tpc (fullPath b) = 250"
  shows "map paramCount (attachParamCounts [n] tpc) = [Some 350]"
  unfolding attachParamCounts_def
  apply (subst attach.simps)
  apply (simp add: assms Let_def)
  apply (subst attach.simps)
  apply (simp add: assms orZero_buildModuleParams)
  apply (simp add: orZero_def)
  done

text \<open>
  Claim C7. \<open>attachParamCounts\<close> first sums the counts per module path, the tensor names
  normalised by \<open>stripWeightSuffix\<close> (first conjunct). In the tree it returns, every
  childless node carries its module's sum, which is 0 for a module with no tensor in the
  map, and every other node carries the sum of the counts attached to its children
  (\<open>countsAttached\<close>, at every level). The tree is the given one in all but the counts, and
  the operation is a function of its arguments: the given tree is not changed. A container
  whose two childless children have the sums 100 and 250 gets 350. Counts are natural
  numbers with a total in the range of exact integers.
\<close>

theorem attachParamCounts_sums:
  assumes "exactCounts tpc"
  shows "buildModuleParams tpc p =
           (if \<exists>(k, c) \<in> set tpc. stripWeightSuffix k = p then Some (moduleTotal tpc p) else None) \<and>
         (\<not> (\<exists>(k, c) \<in> set tpc. stripWeightSuffix k = p) \<longrightarrow> moduleTotal tpc p = 0) \<and>
         countsAttached (moduleTotal tpc) (attachParamCounts nodes tpc) \<and>
         map eraseCounts (attachParamCounts nodes tpc) = map eraseCounts nodes \<and>
         (children n = [a, b] \<and> children a = [] \<and> children b = [] \<and>
          moduleTotal tpc (fullPath a) = 100 \<and> moduleTotal tpc (fullPath b) = 250 \<longrightarrow>
          map paramCount (attachParamCounts [n] tpc) = [Some 350])"
proof -
  have "countsAttached (\<lambda>p. orZero (buildModuleParams tpc p)) (attachParamCounts nodes tpc)"
    unfolding attachParamCounts_def by (rule attach_counts)
  then have c: "countsAttached (moduleTotal tpc) (attachParamCounts nodes tpc)"
    by (simp add: orZero_buildModuleParams)
  have s: "map eraseCounts (attachParamCounts nodes tpc) = map eraseCounts nodes"
    unfolding attachParamCounts_def by (rule attach_structure)
  show ?thesis
    using c s buildModuleParams_total[of tpc p] moduleTotal_absent[of tpc p]
      attach_container[of n a b tpc]
    by blast
qed


lemma countedTensors_totals:
  "moduleTotal countedTensors ''block.fc1'' = 100"
  "moduleTotal countedTensors ''block.fc2'' = 250"
  "moduleTotal countedTensors ''block2.absent'' = 0"
  "\<not> (\<exists>(k, c) \<in> set countedTensors. stripWeightSuffix k = ''block2.absent'')"
  "exactCounts countedTensors"
  by code_simp+

lemma countedTree_counts:
  "map paramCount (attachParamCounts countedTree countedTensors) = [Some 350, Some 0]"
  unfolding attachParamCounts_def countedTree_def exampleLeaf_def
  apply (subst attach.simps)
  apply (simp add: Let_def)
  apply (subst attach.simps)
  apply (simp add: orZero_buildModuleParams countedTensors_totals)
  apply (simp add: orZero_def)
  done

theorem attachParamCounts_sums_witness:
  "exactCounts countedTensors \<and>
   \<not> (\<exists>(k, c) \<in> set countedTensors. stripWeightSuffix k = ''block2.absent'') \<and>
   moduleTotal countedTensors ''block2.absent'' = 0 \<and>
   buildModuleParams countedTensors ''block2.absent'' = None \<and>
   countsAttached (moduleTotal countedTensors) (attachParamCounts countedTree countedTensors) \<and>
   map paramCount (attachParamCounts countedTree countedTensors) = [Some 350, Some 0]"
  using attachParamCounts_sums[OF countedTensors_totals(5), of "''block2.absent''" countedTree]
    countedTensors_totals countedTree_counts
  by simp

section \<open>Properties of the selection optimizer\<close>

text \<open>
  Claim C2, as stated, fails. With all five paths of the universe selected, the two paths
  with a layer index are each the only path of their template in the universe: the number
  of selected indices equals the number in the universe, and the optimizer emits the
  index wildcard for them. The rule list is not the five paths, and it holds rules that
  start with \<open>re:\<close>.
\<close>

theorem optimizeSelection_five_literals_counterexample:
  "mset (optimized (optimizeSelection fiveUniverse fiveUniverse)) \<noteq> mset fiveUniverse \<and>
   list_ex (\<lambda>rule. startsWith rule ''re:'') (optimized (optimizeSelection fiveUniverse fiveUniverse))"
  by code_simp

text \<open>
  Claim C2, amended. For this universe with all five paths selected, in the order of the
  universe, the rule list is the three paths without a layer index as literals, followed
  by one index-wildcard rule for each of the two paths with a layer index.
\<close>

theorem optimizeSelection_five_paths:
  "optimized (optimizeSelection fiveUniverse fiveUniverse) =
     [''model.embed_tokens'', ''model.norm'', ''lm_head'',
      ''re:model'' @ [backslash] @ ''.layers'' @ [backslash] @ ''.'' @ [backslash] @ ''d+'' @
        [backslash] @ ''.self_attn'' @ [backslash] @ ''.q_proj'',
      ''re:model'' @ [backslash] @ ''.layers'' @ [backslash] @ ''.'' @ [backslash] @ ''d+'' @
        [backslash] @ ''.mlp'' @ [backslash] @ ''.down_proj''] \<and>
   explicit (optimizeSelection fiveUniverse fiveUniverse) = fiveUniverse"
  by code_simp

text \<open>
  Claim C3. In the universe of the paths \<open>model.layers.i.mlp.down_proj\<close> for \<open>i\<close> from 0 to
  31: all 32 selected give the one index-wildcard rule; the indices 0, 1, 2 give the three
  paths as literals; the indices 0, 5, 10, 15, 20, selected in any order (here 20, 0, 10,
  5, 15), give one alternation rule with the indices in ascending order; and a contiguous
  selection (3, 4, 5, 6) gives a rule of the same alternation form.
\<close>

theorem optimizeSelection_template_compression:
  "downProjUniverse ! 0 = ''model.layers.0.mlp.down_proj'' \<and>
   downProjUniverse ! 31 = ''model.layers.31.mlp.down_proj'' \<and>
   length downProjUniverse = 32 \<and>
   optimized (optimizeSelection downProjUniverse downProjUniverse) =
     [''re:model'' @ [backslash] @ ''.layers'' @ [backslash] @ ''.'' @ [backslash] @ ''d+'' @
        [backslash] @ ''.mlp'' @ [backslash] @ ''.down_proj''] \<and>
   optimized (optimizeSelection (map downProj [0, 1, 2]) downProjUniverse) =
     [''model.layers.0.mlp.down_proj'', ''model.layers.1.mlp.down_proj'',
      ''model.layers.2.mlp.down_proj''] \<and>
   optimized (optimizeSelection (map downProj [0, 5, 10, 15, 20]) downProjUniverse) =
     [''re:model'' @ [backslash] @ ''.layers'' @ [backslash] @ ''.(0|5|10|15|20)'' @
        [backslash] @ ''.mlp'' @ [backslash] @ ''.down_proj''] \<and>
   optimized (optimizeSelection (map downProj [20, 0, 10, 5, 15]) downProjUniverse) =
     [''re:model'' @ [backslash] @ ''.layers'' @ [backslash] @ ''.(0|5|10|15|20)'' @
        [backslash] @ ''.mlp'' @ [backslash] @ ''.down_proj''] \<and>
   optimized (optimizeSelection (map downProj [3, 4, 5, 6]) downProjUniverse) =
     [''re:model'' @ [backslash] @ ''.layers'' @ [backslash] @ ''.(3|4|5|6)'' @
        [backslash] @ ''.mlp'' @ [backslash] @ ''.down_proj'']"
  by code_simp

section \<open>Properties of the ignore-list parser\<close>

lemma bracketMatch_None:
  assumes "\<not> (\<exists>pre inner post. text' = pre @ ''['' @ inner @ '']'' @ post)"
  shows "bracketMatch text' = None"
  using assms
proof (induction text')
  case Nil
  then show ?case by simp
next
  case (Cons c cs)
  have no: "\<not> (c = CHR ''['' \<and> CHR '']'' \<in> set cs)"
  proof
    assume a: "c = CHR ''['' \<and> CHR '']'' \<in> set cs"
    then obtain inner post where "cs = inner @ CHR '']'' # post"
      by (meson split_list)
    with a have "c # cs = [] @ ''['' @ inner @ '']'' @ post" by simp
    with Cons.prems show False by blast
  qed
  have "\<not> (\<exists>pre inner post. cs = pre @ ''['' @ inner @ '']'' @ post)"
  proof
    assume "\<exists>pre inner post. cs = pre @ ''['' @ inner @ '']'' @ post"
    then obtain pre inner post where "cs = pre @ ''['' @ inner @ '']'' @ post" by blast
    then have "c # cs = (c # pre) @ ''['' @ inner @ '']'' @ post" by simp
    with Cons.prems show False by blast
  qed
  with Cons.IH no show ?case by auto
qed

lemma takeWhile_until:
  "x \<notin> set xs \<Longrightarrow> takeWhile (\<lambda>y. y \<noteq> x) (xs @ x # ys) = xs"
  by (induction xs) auto

lemma bracketMatch_first:
  assumes "CHR ''['' \<notin> set pre" "CHR '']'' \<notin> set inner"
  shows "bracketMatch (pre @ ''['' @ inner @ '']'' @ post) = Some inner"
  using assms by (induction pre) (auto simp: takeWhile_until)

text \<open>
  Claim C10. On a text with no bracketed span (no opening bracket with a closing bracket
  after it), \<open>parseIgnoreItems\<close> returns the empty list, for every universe and whatever the
  platform's regular expressions do; the model has no error value, the one operation of the
  source that can throw being inside its \<^verbatim>\<open>try\<close>. On a text with a bracketed span the result
  is computed from the quoted strings of the first span alone: the text before the first
  opening bracket and after the first closing bracket that follows it does not matter.
\<close>

theorem parseIgnoreItems_first_bracket_span:
  "(\<not> (\<exists>pre inner post. text' = pre @ ''['' @ inner @ '']'' @ post) \<longrightarrow>
      parseIgnoreItems platform text' universe = []) \<and>
   (CHR ''['' \<notin> set pre \<and> CHR '']'' \<notin> set inner \<longrightarrow>
      parseIgnoreItems platform (pre @ ''['' @ inner @ '']'' @ post) universe =
        foldl (resolveItem platform universe) [] (quotedItems inner) \<and>
      parseIgnoreItems platform (pre @ ''['' @ inner @ '']'' @ post) universe =
        parseIgnoreItems platform (''['' @ inner @ '']'') universe)"
proof -
  have 1: "parseIgnoreItems platform text' universe = []"
    if "\<not> (\<exists>pre inner post. text' = pre @ ''['' @ inner @ '']'' @ post)"
    using bracketMatch_None[OF that] by (simp add: parseIgnoreItems_def)
  have 2: "parseIgnoreItems platform (p @ ''['' @ inner @ '']'' @ q) universe =
        foldl (resolveItem platform universe) [] (quotedItems inner)"
    if "CHR ''['' \<notin> set p" "CHR '']'' \<notin> set inner" for p q
    using bracketMatch_first[OF that, of q] by (simp add: parseIgnoreItems_def)
  show ?thesis
    using 1 2[of pre post] 2[of "[]" "[]"] by simp
qed

theorem parseIgnoreItems_first_bracket_span_witness:
  "\<not> (\<exists>pre inner post. ''ignore=model.norm'' = pre @ ''['' @ inner @ '']'' @ post) \<and>
   parseIgnoreItems noPlatform ''ignore=model.norm'' [''model.norm''] = [] \<and>
   parseIgnoreItems noPlatform editedText [''x'', ''a'', ''b'', ''c''] = [''a'', ''b'']"
proof -
  have n: "\<not> (\<exists>pre inner post. ''ignore=model.norm'' = pre @ ''['' @ inner @ '']'' @ post)"
  proof
    assume "\<exists>pre inner post. ''ignore=model.norm'' = pre @ ''['' @ inner @ '']'' @ post"
    then obtain pre inner post where "''ignore=model.norm'' = pre @ ''['' @ inner @ '']'' @ post"
      by blast
    then have "CHR ''['' \<in> set ''ignore=model.norm''"
      by (metis append_Cons in_set_conv_decomp)
    then show False by simp
  qed
  have e: "editedText = ([dquote] @ ''x'' @ [dquote] @ '' ignore='') @ ''['' @
       ([dquote] @ ''a'' @ [dquote] @ '', '' @ [squote] @ ''b'' @ [squote]) @ '']'' @
       ('' ['' @ [dquote] @ ''c'' @ [dquote] @ '']'')"
    by (simp add: editedText_def)
  have q: "foldl (resolveItem noPlatform [''x'', ''a'', ''b'', ''c'']) []
       (quotedItems ([dquote] @ ''a'' @ [dquote] @ '', '' @ [squote] @ ''b'' @ [squote])) = [''a'', ''b'']"
    by code_simp
  have "parseIgnoreItems noPlatform editedText [''x'', ''a'', ''b'', ''c''] = [''a'', ''b'']"
    unfolding e
    using parseIgnoreItems_first_bracket_span[of "''ignore=model.norm''" noPlatform "[''x'', ''a'', ''b'', ''c'']"
        "[dquote] @ ''x'' @ [dquote] @ '' ignore=''"
        "[dquote] @ ''a'' @ [dquote] @ '', '' @ [squote] @ ''b'' @ [squote]"
        "'' ['' @ [dquote] @ ''c'' @ [dquote] @ '']''"] q
    by simp
  moreover have "parseIgnoreItems noPlatform ''ignore=model.norm'' [''model.norm''] = []"
    using parseIgnoreItems_first_bracket_span[of "''ignore=model.norm''" noPlatform "[''model.norm'']"] n
    by blast
  ultimately show ?thesis using n by blast
qed

section \<open>Properties of the pattern matcher\<close>

lemma matchOneOrMore_iff:
  "x \<in> set (matchOneOrMore a s) \<longleftrightarrow> (\<exists>v. s = v @ x \<and> v \<noteq> [] \<and> list_all (atomMatches a) v)"
proof (induction s)
  case Nil
  then show ?case by simp
next
  case (Cons c cs)
  show ?case
  proof (cases "atomMatches a c")
    case False
    have "\<not> (\<exists>v. c # cs = v @ x \<and> v \<noteq> [] \<and> list_all (atomMatches a) v)"
    proof
      assume "\<exists>v. c # cs = v @ x \<and> v \<noteq> [] \<and> list_all (atomMatches a) v"
      then obtain v where v: "c # cs = v @ x" "v \<noteq> []" "list_all (atomMatches a) v" by blast
      then obtain v' where "v = c # v'" by (cases v) auto
      with v False show False by simp
    qed
    with False show ?thesis by simp
  next
    case True
    have "(\<exists>v. c # cs = v @ x \<and> v \<noteq> [] \<and> list_all (atomMatches a) v) \<longleftrightarrow>
          (x = cs \<or> (\<exists>v. cs = v @ x \<and> v \<noteq> [] \<and> list_all (atomMatches a) v))"
    proof
      assume "\<exists>v. c # cs = v @ x \<and> v \<noteq> [] \<and> list_all (atomMatches a) v"
      then obtain v where v: "c # cs = v @ x" "v \<noteq> []" "list_all (atomMatches a) v" by blast
      then obtain v' where v': "v = c # v'" by (cases v) auto
      show "x = cs \<or> (\<exists>v. cs = v @ x \<and> v \<noteq> [] \<and> list_all (atomMatches a) v)"
      proof (cases "v' = []")
        case True
        with v v' show ?thesis by simp
      next
        case False
        with v v' have "cs = v' @ x \<and> v' \<noteq> [] \<and> list_all (atomMatches a) v'" by simp
        then show ?thesis by blast
      qed
    next
      assume "x = cs \<or> (\<exists>v. cs = v @ x \<and> v \<noteq> [] \<and> list_all (atomMatches a) v)"
      then show "\<exists>v. c # cs = v @ x \<and> v \<noteq> [] \<and> list_all (atomMatches a) v"
      proof
        assume "x = cs"
        then have "c # cs = [c] @ x \<and> [c] \<noteq> [] \<and> list_all (atomMatches a) [c]"
          using True by simp
        then show ?thesis by blast
      next
        assume "\<exists>v. cs = v @ x \<and> v \<noteq> [] \<and> list_all (atomMatches a) v"
        then obtain v where "cs = v @ x" "list_all (atomMatches a) v" by blast
        then have "c # cs = (c # v) @ x \<and> c # v \<noteq> [] \<and> list_all (atomMatches a) (c # v)"
          using True by simp
        then show ?thesis by blast
      qed
    qed
    with True Cons.IH show ?thesis by simp
  qed
qed

lemma matchPiece_lang:
  "x \<in> set (matchPiece p s) \<longleftrightarrow> (\<exists>v \<in> langPiece p. s = v @ x)"
proof (cases p)
  case (Once a)
  show ?thesis
    by (cases s) (auto simp: Once langPiece_def)
next
  case (OneOrMore a)
  show ?thesis
    by (auto simp: OneOrMore langPiece_def matchOneOrMore_iff)
qed

lemma append_lang_iff:
  "(\<exists>y. (\<exists>a \<in> A. s = a @ y) \<and> (\<exists>b \<in> B. y = b @ x)) \<longleftrightarrow>
   (\<exists>v \<in> {a @ b | a b. a \<in> A \<and> b \<in> B}. s = v @ x)"
proof
  assume "\<exists>y. (\<exists>a \<in> A. s = a @ y) \<and> (\<exists>b \<in> B. y = b @ x)"
  then obtain y a b where "a \<in> A" "s = a @ y" "b \<in> B" "y = b @ x" by blast
  then have "a @ b \<in> {a @ b | a b. a \<in> A \<and> b \<in> B}" "s = (a @ b) @ x" by auto
  then show "\<exists>v \<in> {a @ b | a b. a \<in> A \<and> b \<in> B}. s = v @ x" by blast
next
  assume "\<exists>v \<in> {a @ b | a b. a \<in> A \<and> b \<in> B}. s = v @ x"
  then obtain a b where "a \<in> A" "b \<in> B" "s = (a @ b) @ x" by blast
  then have "(\<exists>a \<in> A. s = a @ (b @ x)) \<and> (\<exists>b' \<in> B. b @ x = b' @ x)" by auto
  then show "\<exists>y. (\<exists>a \<in> A. s = a @ y) \<and> (\<exists>b \<in> B. y = b @ x)" by blast
qed

lemma matchPieces_lang:
  "x \<in> set (matchPieces ps s) \<longleftrightarrow> (\<exists>v \<in> langPieces ps. s = v @ x)"
proof (induction ps arbitrary: s)
  case Nil
  then show ?case by auto
next
  case (Cons p ps)
  have "x \<in> set (matchPieces (p # ps) s) \<longleftrightarrow>
        (\<exists>y \<in> set (matchPiece p s). x \<in> set (matchPieces ps y))"
    by simp
  also have "\<dots> \<longleftrightarrow> (\<exists>y. (\<exists>a \<in> langPiece p. s = a @ y) \<and> (\<exists>b \<in> langPieces ps. y = b @ x))"
    by (simp only: Cons.IH matchPiece_lang Bex_def)
  also have "\<dots> \<longleftrightarrow> (\<exists>v \<in> langPieces (p # ps). s = v @ x)"
    unfolding langPieces.simps by (rule append_lang_iff)
  finally show ?case .
qed

lemma matchTerm_lang:
  "x \<in> set (matchTerm t s) \<longleftrightarrow> (\<exists>v \<in> langTerm t. s = v @ x)"
proof (cases t)
  case (Piece p)
  then show ?thesis by (simp add: langTerm_def matchPiece_lang)
next
  case (Choice alts)
  have "x \<in> set (matchTerm t s) \<longleftrightarrow> (\<exists>ps \<in> set alts. x \<in> set (matchPieces ps s))"
    by (simp add: Choice)
  also have "\<dots> \<longleftrightarrow> (\<exists>v \<in> langTerm t. s = v @ x)"
    unfolding matchPieces_lang by (auto simp: Choice langTerm_def)
  finally show ?thesis .
qed

lemma matchTerms_lang:
  "x \<in> set (matchTerms r s) \<longleftrightarrow> (\<exists>v \<in> langTerms r. s = v @ x)"
proof (induction r arbitrary: s)
  case Nil
  then show ?case by auto
next
  case (Cons t ts)
  have "x \<in> set (matchTerms (t # ts) s) \<longleftrightarrow>
        (\<exists>y \<in> set (matchTerm t s). x \<in> set (matchTerms ts y))"
    by simp
  also have "\<dots> \<longleftrightarrow> (\<exists>y. (\<exists>a \<in> langTerm t. s = a @ y) \<and> (\<exists>b \<in> langTerms ts. y = b @ x))"
    by (simp only: Cons.IH matchTerm_lang Bex_def)
  also have "\<dots> \<longleftrightarrow> (\<exists>v \<in> langTerms (t # ts). s = v @ x)"
    unfolding langTerms.simps by (rule append_lang_iff)
  finally show ?case .
qed

lemma matchTerms_nonempty:
  "matchTerms r s \<noteq> [] \<longleftrightarrow> (\<exists>v w. s = v @ w \<and> v \<in> langTerms r)"
proof -
  have "matchTerms r s \<noteq> [] \<longleftrightarrow> (\<exists>x. x \<in> set (matchTerms r s))"
    by (cases "matchTerms r s") auto
  also have "\<dots> \<longleftrightarrow> (\<exists>v w. s = v @ w \<and> v \<in> langTerms r)"
    unfolding matchTerms_lang by blast
  finally show ?thesis .
qed

lemma regexTest_substring:
  "regexTest r p \<longleftrightarrow> (\<exists>u v w. p = u @ v @ w \<and> v \<in> langTerms r)"
proof (induction p)
  case Nil
  have "(\<exists>v w. [] = v @ w \<and> v \<in> langTerms r) \<longleftrightarrow> (\<exists>u v w. [] = u @ v @ w \<and> v \<in> langTerms r)"
    by simp
  then show ?case unfolding regexTest.simps matchTerms_nonempty .
next
  case (Cons c cs)
  have "(\<exists>u v w. c # cs = u @ v @ w \<and> v \<in> langTerms r) \<longleftrightarrow>
        (\<exists>v w. c # cs = v @ w \<and> v \<in> langTerms r) \<or> (\<exists>u v w. cs = u @ v @ w \<and> v \<in> langTerms r)"
  proof
    assume "\<exists>u v w. c # cs = u @ v @ w \<and> v \<in> langTerms r"
    then obtain u v w where e: "c # cs = u @ v @ w" and v: "v \<in> langTerms r" by blast
    show "(\<exists>v w. c # cs = v @ w \<and> v \<in> langTerms r) \<or> (\<exists>u v w. cs = u @ v @ w \<and> v \<in> langTerms r)"
    proof (cases u)
      case Nil
      with e v show ?thesis by auto
    next
      case (Cons a u')
      with e have "cs = u' @ v @ w" by simp
      with v show ?thesis by blast
    qed
  next
    assume "(\<exists>v w. c # cs = v @ w \<and> v \<in> langTerms r) \<or> (\<exists>u v w. cs = u @ v @ w \<and> v \<in> langTerms r)"
    then show "\<exists>u v w. c # cs = u @ v @ w \<and> v \<in> langTerms r"
    proof
      assume "\<exists>v w. c # cs = v @ w \<and> v \<in> langTerms r"
      then obtain v w where "c # cs = [] @ v @ w" "v \<in> langTerms r" by auto
      then show ?thesis by blast
    next
      assume "\<exists>u v w. cs = u @ v @ w \<and> v \<in> langTerms r"
      then obtain u v w where "c # cs = (c # u) @ v @ w" "v \<in> langTerms r" by auto
      then show ?thesis by blast
    qed
  qed
  with Cons.IH show ?case unfolding regexTest.simps matchTerms_nonempty by blast
qed

subsection \<open>The languages of the emitted patterns\<close>

lemma langPieces_literal: "langPieces (literalPieces w) = {w}"
proof (induction w)
  case Nil
  then show ?case by (simp add: literalPieces_def)
next
  case (Cons c w)
  have "langPiece (Once (AChar c)) = {[c]}"
    by (auto simp: langPiece_def atomMatches_def)
  with Cons show ?case by (auto simp: literalPieces_def)
qed

lemma langTerms_literal_append:
  "langTerms (literalTerms w @ r) = {w @ b | b. b \<in> langTerms r}"
proof (induction w)
  case Nil
  then show ?case by (simp add: literalTerms_def)
next
  case (Cons c w)
  have "langTerm (Piece (Once (AChar c))) = {[c]}"
    by (auto simp: langTerm_def langPiece_def atomMatches_def)
  with Cons show ?case by (auto simp: literalTerms_def)
qed

lemma langTerms_literal: "langTerms (literalTerms w) = {w}"
  using langTerms_literal_append[of w "[]"] by simp

lemma langTerms_wildcard:
  "langTerms (wildcardPattern pre suf) =
     {pre @ ds @ suf | ds. ds \<noteq> [] \<and> list_all isDigit ds}"
proof -
  have d: "langTerm (Piece (OneOrMore ADigit)) = {ds. ds \<noteq> [] \<and> list_all isDigit ds}"
    by (auto simp: langTerm_def langPiece_def atomMatches_def list_all_iff)
  have "langTerms (Piece (OneOrMore ADigit) # literalTerms suf) =
        {ds @ suf | ds. ds \<noteq> [] \<and> list_all isDigit ds}"
    unfolding langTerms.simps d langTerms_literal by auto
  then show ?thesis
    unfolding wildcardPattern_def langTerms_literal_append by auto
qed

lemma langTerms_alternation:
  "langTerms (alternationPattern pre idxs suf) = {pre @ showNat i @ suf | i. i \<in> set idxs}"
proof -
  have d: "langTerm (Choice (map (\<lambda>i. literalPieces (showNat i)) idxs)) = {showNat i | i. i \<in> set idxs}"
    by (auto simp: langTerm_def langPieces_literal)
  have "langTerms (Choice (map (\<lambda>i. literalPieces (showNat i)) idxs) # literalTerms suf) =
        {showNat i @ suf | i. i \<in> set idxs}"
    unfolding langTerms.simps d langTerms_literal by auto
  then show ?thesis
    unfolding alternationPattern_def langTerms_literal_append by auto
qed

lemma regexTest_wildcard:
  "regexTest (wildcardPattern pre suf) p \<longleftrightarrow>
     (\<exists>u ds v. p = u @ pre @ ds @ suf @ v \<and> ds \<noteq> [] \<and> list_all isDigit ds)"
proof -
  have "regexTest (wildcardPattern pre suf) p \<longleftrightarrow>
        (\<exists>u m v. p = u @ m @ v \<and> (\<exists>ds. m = pre @ ds @ suf \<and> ds \<noteq> [] \<and> list_all isDigit ds))"
    unfolding regexTest_substring langTerms_wildcard by simp
  also have "\<dots> \<longleftrightarrow> (\<exists>u ds v. p = u @ pre @ ds @ suf @ v \<and> ds \<noteq> [] \<and> list_all isDigit ds)"
    by (metis append.assoc)
  finally show ?thesis .
qed

lemma regexTest_alternation:
  "regexTest (alternationPattern pre idxs suf) p \<longleftrightarrow>
     (\<exists>u i v. i \<in> set idxs \<and> p = u @ pre @ showNat i @ suf @ v)"
proof -
  have "regexTest (alternationPattern pre idxs suf) p \<longleftrightarrow>
        (\<exists>u m v. p = u @ m @ v \<and> (\<exists>i. m = pre @ showNat i @ suf \<and> i \<in> set idxs))"
    unfolding regexTest_substring langTerms_alternation by simp
  also have "\<dots> \<longleftrightarrow> (\<exists>u i v. i \<in> set idxs \<and> p = u @ pre @ showNat i @ suf @ v)"
    by (metis append.assoc)
  finally show ?thesis .
qed

subsection \<open>Parsing the emitted patterns\<close>

lemma syntaxChars_iff:
  "c \<in> set syntaxChars \<longleftrightarrow>
     c = CHR ''.'' \<or> c = CHR ''*'' \<or> c = CHR ''+'' \<or> c = CHR ''?'' \<or> c = CHR ''^'' \<or>
     c = CHR ''$'' \<or> c = CHR ''{'' \<or> c = CHR ''}'' \<or> c = CHR ''('' \<or> c = CHR '')'' \<or>
     c = CHR ''|'' \<or> c = CHR ''['' \<or> c = CHR '']'' \<or> c = backslash"
  by (auto simp: syntaxChars_def)

lemma tokenize_plain:
  "c \<notin> set syntaxChars \<Longrightarrow> tokenize (c # rest) = map_option ((#) (TChar c)) (tokenize rest)"
  by (cases rest) (auto simp: syntaxChars_iff)

lemma tokenize_escaped:
  "c \<in> set syntaxChars \<Longrightarrow>
   tokenize (backslash # c # rest) = map_option ((#) (TChar c)) (tokenize rest)"
  by (auto simp: syntaxChars_iff)

lemma tokenize_digit_class:
  "tokenize (backslash # CHR ''d'' # rest) = map_option ((#) TDigit) (tokenize rest)"
  by simp

lemma tokenize_special:
  "tokenize (CHR ''+'' # rest) = map_option ((#) TPlus) (tokenize rest)"
  "tokenize (CHR ''('' # rest) = map_option ((#) TOpen) (tokenize rest)"
  "tokenize (CHR '')'' # rest) = map_option ((#) TClose) (tokenize rest)"
  "tokenize (CHR ''|'' # rest) = map_option ((#) TBar) (tokenize rest)"
  by (cases rest; simp)+

lemma tokenize_escapeRegex:
  "tokenize (escapeRegex w @ rest) = map_option ((@) (map TChar w)) (tokenize rest)"
proof (induction w)
  case Nil
  show ?case by (simp add: escapeRegex_def option.map_ident)
next
  case (Cons c w)
  have e: "escapeRegex (c # w) = (if c \<in> set syntaxChars then [backslash, c] else [c]) @ escapeRegex w"
    by (simp add: escapeRegex_def)
  show ?case
  proof (cases "c \<in> set syntaxChars")
    case True
    then show ?thesis
      unfolding e using Cons
      by (simp add: tokenize_escaped option.map_comp comp_def del: tokenize.simps)
  next
    case False
    then show ?thesis
      unfolding e using Cons
      by (simp add: tokenize_plain option.map_comp comp_def del: tokenize.simps)
  qed
qed

lemma tokenize_word:
  assumes "\<forall>c \<in> set w. c \<notin> set syntaxChars"
  shows "tokenize (w @ rest) = map_option ((@) (map TChar w)) (tokenize rest)"
  using assms
proof (induction w)
  case Nil
  show ?case by (simp add: option.map_ident)
next
  case (Cons c w)
  then show ?case
    by (simp add: tokenize_plain option.map_comp comp_def del: tokenize.simps)
qed

lemma digit_not_syntax: "isDigit c \<Longrightarrow> c \<notin> set syntaxChars"
  by (auto simp: syntaxChars_iff isDigit_def)

lemma join_Cons: "join [a] (x # xs) = x @ concat (map ((#) a) xs)"
  by (induction xs arbitrary: x) simp_all

lemma tokenize_bar_words:
  assumes "\<forall>w \<in> set ws. \<forall>c \<in> set w. c \<notin> set syntaxChars"
  shows "tokenize (concat (map ((#) CHR ''|'') ws) @ rest) =
           map_option ((@) (concat (map (\<lambda>w. TBar # map TChar w) ws))) (tokenize rest)"
  using assms
proof (induction ws)
  case Nil
  show ?case by (simp add: option.map_ident)
next
  case (Cons w ws)
  then have ih: "tokenize (concat (map ((#) CHR ''|'') ws) @ rest) =
           map_option ((@) (concat (map (\<lambda>w. TBar # map TChar w) ws))) (tokenize rest)"
    and w: "\<forall>c \<in> set w. c \<notin> set syntaxChars"
    by simp_all
  have "tokenize (concat (map ((#) CHR ''|'') (w # ws)) @ rest) =
        tokenize (CHR ''|'' # (w @ (concat (map ((#) CHR ''|'') ws) @ rest)))"
    by simp
  also have "\<dots> = map_option ((#) TBar) (tokenize (w @ (concat (map ((#) CHR ''|'') ws) @ rest)))"
    by (rule tokenize_special)
  also have "\<dots> = map_option ((@) (concat (map (\<lambda>w. TBar # map TChar w) (w # ws)))) (tokenize rest)"
    unfolding tokenize_word[OF w] ih by (cases "tokenize rest") simp_all
  finally show ?case .
qed

lemma tokenize_join_bars:
  assumes "\<forall>w \<in> set ws. \<forall>c \<in> set w. c \<notin> set syntaxChars" "ws \<noteq> []"
  shows "tokenize (join ''|'' ws @ rest) =
           map_option ((@) (join [TBar] (map (map TChar) ws))) (tokenize rest)"
proof -
  from assms obtain x xs where ws: "ws = x # xs" by (cases ws) auto
  have x: "\<forall>c \<in> set x. c \<notin> set syntaxChars"
    and xs: "\<forall>w \<in> set xs. \<forall>c \<in> set w. c \<notin> set syntaxChars"
    using assms ws by simp_all
  have "tokenize (join ''|'' ws @ rest) = tokenize (x @ (concat (map ((#) CHR ''|'') xs) @ rest))"
    by (simp add: ws join_Cons)
  also have "\<dots> = map_option ((@) (map TChar x))
       (map_option ((@) (concat (map (\<lambda>w. TBar # map TChar w) xs))) (tokenize rest))"
    unfolding tokenize_word[OF x] tokenize_bar_words[OF xs] ..
  also have "\<dots> = map_option ((@) (join [TBar] (map (map TChar) ws))) (tokenize rest)"
    by (cases "tokenize rest") (simp_all add: ws join_Cons comp_def)
  finally show ?thesis .
qed

lemma parsePieces_TChar:
  "(ts = [] \<or> hd ts \<noteq> TPlus) \<Longrightarrow>
   parsePieces (TChar c # ts) = map_option ((#) (Once (AChar c))) (parsePieces ts)"
proof (cases ts)
  case Nil
  then show ?thesis by simp
next
  case (Cons t ts')
  assume "ts = [] \<or> hd ts \<noteq> TPlus"
  with Cons show ?thesis by (cases t) simp_all
qed

lemma parsePieces_literal_append:
  assumes "ts = [] \<or> hd ts \<noteq> TPlus"
  shows "parsePieces (map TChar w @ ts) = map_option ((@) (literalPieces w)) (parsePieces ts)"
proof (induction w)
  case Nil
  show ?case by (simp add: literalPieces_def option.map_ident)
next
  case (Cons c w)
  have h: "map TChar w @ ts = [] \<or> hd (map TChar w @ ts) \<noteq> TPlus"
    using assms by (cases w) auto
  show ?case
    using parsePieces_TChar[OF h, of c] Cons
    by (simp add: literalPieces_def option.map_comp comp_def)
qed

lemma parsePieces_literal: "parsePieces (map TChar w) = Some (literalPieces w)"
  using parsePieces_literal_append[of "[]" w] by simp

lemma parsePieces_wildcard:
  "parsePieces (map TChar pre @ TDigit # TPlus # map TChar suf) =
     Some (literalPieces pre @ OneOrMore ADigit # literalPieces suf)"
proof -
  have "parsePieces (TDigit # TPlus # map TChar suf) = Some (OneOrMore ADigit # literalPieces suf)"
    by (simp add: parsePieces_literal)
  then show ?thesis
    using parsePieces_literal_append[of "TDigit # TPlus # map TChar suf" pre] by simp
qed

lemma dropWhile_until:
  "x \<notin> set xs \<Longrightarrow> dropWhile (\<lambda>y. y \<noteq> x) (xs @ x # ys) = x # ys"
  by (induction xs) auto

lemma takeWhile_all_differ: "x \<notin> set xs \<Longrightarrow> takeWhile (\<lambda>y. y \<noteq> x) xs = xs"
  by (induction xs) auto

lemma dropWhile_all_differ: "x \<notin> set xs \<Longrightarrow> dropWhile (\<lambda>y. y \<noteq> x) xs = []"
  by (induction xs) auto

lemma parseTerms_no_group:
  "TOpen \<notin> set ts \<Longrightarrow> parseTerms ts = map_option (map Piece) (parsePieces ts)"
  by (subst parseTerms.simps)
     (simp add: takeWhile_all_differ dropWhile_all_differ split: option.split)

lemma map_Piece_literal: "map Piece (literalPieces w) = literalTerms w"
  by (simp add: literalPieces_def literalTerms_def)

lemma splitBars_nonempty: "splitBars ts \<noteq> []"
  by (induction ts) (auto split: list.split)

lemma splitBars_word: "TBar \<notin> set w \<Longrightarrow> splitBars (w @ TBar # ts) = w # splitBars ts"
  by (induction w) auto

lemma splitBars_single: "TBar \<notin> set w \<Longrightarrow> splitBars w = [w]"
  by (induction w) auto

lemma splitBars_bar_words:
  assumes "\<forall>w \<in> set tss. TBar \<notin> set w" "TBar \<notin> set x"
  shows "splitBars (x @ concat (map ((#) TBar) tss)) = x # tss"
  using assms
proof (induction tss arbitrary: x)
  case Nil
  then show ?case by (simp add: splitBars_single)
next
  case (Cons w tss)
  then have "splitBars (w @ concat (map ((#) TBar) tss)) = w # tss" by simp
  with Cons.prems show ?case by (simp add: splitBars_word)
qed

lemma splitBars_join:
  assumes "tss \<noteq> []" "\<forall>w \<in> set tss. TBar \<notin> set w"
  shows "splitBars (join [TBar] tss) = tss"
proof -
  from assms obtain x xs where t: "tss = x # xs" by (cases tss) auto
  show ?thesis
    unfolding t join_Cons using assms t by (intro splitBars_bar_words) auto
qed

lemma allSome_literals:
  "allSome (map parsePieces (map (map TChar) ws)) = Some (map literalPieces ws)"
  by (induction ws) (simp_all add: parsePieces_literal)

lemma parsePattern_wildcard:
  "parsePattern (escapeRegex pre @ [backslash] @ ''d+'' @ escapeRegex suf) =
     Some (wildcardPattern pre suf)"
proof -
  have t: "tokenize (escapeRegex pre @ [backslash] @ ''d+'' @ escapeRegex suf) =
        Some (map TChar pre @ TDigit # TPlus # map TChar suf)"
    using tokenize_escapeRegex[of suf "[]"]
    by (simp add: tokenize_escapeRegex tokenize_special del: tokenize.simps)
       (simp add: tokenize_escapeRegex tokenize_special)
  have "TOpen \<notin> set (map TChar pre @ TDigit # TPlus # map TChar suf)" by auto
  then have "parseTerms (map TChar pre @ TDigit # TPlus # map TChar suf) =
      Some (wildcardPattern pre suf)"
    by (simp add: parseTerms_no_group parsePieces_wildcard wildcardPattern_def
        map_Piece_literal del: map_append)
       (simp add: map_Piece_literal)
  with t show ?thesis by (simp add: parsePattern_def)
qed

lemma isDigit_digitChar: "d < 10 \<Longrightarrow> isDigit (digitChar d)"
  by (simp add: isDigit_def digitChar_def)

lemma digitValue_digitChar: "d < 10 \<Longrightarrow> digitValue (digitChar d) = d"
  by (simp add: digitValue_def digitChar_def)

lemma showNat_digits: "list_all isDigit (showNat n) \<and> showNat n \<noteq> []"
proof (induction n rule: showNat.induct)
  case (1 n)
  show ?case
  proof (cases "n < 10")
    case True
    then show ?thesis by (subst showNat.simps, subst showNat.simps) (simp add: isDigit_digitChar)
  next
    case False
    with 1 show ?thesis
      by (subst showNat.simps, subst (2) showNat.simps) (simp add: isDigit_digitChar)
  qed
qed

lemma parseInt10_snoc: "parseInt10 (ds @ [c]) = 10 * parseInt10 ds + digitValue c"
  by (simp add: parseInt10_def)

lemma parseInt10_showNat: "parseInt10 (showNat n) = n"
proof (induction n rule: showNat.induct)
  case (1 n)
  show ?case
  proof (cases "n < 10")
    case True
    then show ?thesis
      by (subst showNat.simps) (simp add: parseInt10_def digitValue_digitChar)
  next
    case False
    with 1 have "parseInt10 (showNat (n div 10)) = n div 10" by simp
    with False show ?thesis
      by (subst showNat.simps) (simp add: parseInt10_snoc digitValue_digitChar)
  qed
qed

lemma showNat_inj: "showNat a = showNat b \<Longrightarrow> a = b"
  by (metis parseInt10_showNat)

lemma set_join_subset: "set (join sep xs) \<subseteq> set sep \<union> (\<Union>x \<in> set xs. set x)"
  by (induction sep xs rule: join.induct) auto

lemma parsePattern_alternation:
  assumes "idxs \<noteq> []"
  shows "parsePattern (escapeRegex pre @ ''('' @ join ''|'' (map showNat idxs) @ '')'' @ escapeRegex suf) =
           Some (alternationPattern pre idxs suf)"
proof -
  let ?J = "join [TBar] (map (map TChar) (map showNat idxs))"
  have plain: "\<forall>w \<in> set (map showNat idxs). \<forall>c \<in> set w. c \<notin> set syntaxChars"
    using showNat_digits by (auto simp: list_all_iff digit_not_syntax)
  have ne: "map showNat idxs \<noteq> []" using assms by simp
  have "tokenize (join ''|'' (map showNat idxs) @ (CHR '')'' # escapeRegex suf)) =
        Some (?J @ TClose # map TChar suf)"
    unfolding tokenize_join_bars[OF plain ne] tokenize_special
    using tokenize_escapeRegex[of suf "[]"] by simp
  then have t: "tokenize (escapeRegex pre @ ''('' @ join ''|'' (map showNat idxs) @ '')'' @ escapeRegex suf) =
        Some (map TChar pre @ TOpen # ?J @ TClose # map TChar suf)"
    unfolding tokenize_escapeRegex by (simp add: tokenize_special del: tokenize.simps)
  have J: "set ?J \<subseteq> {TBar} \<union> range TChar"
    using set_join_subset[of "[TBar]" "map (map TChar) (map showNat idxs)"] by auto
  have nc: "TClose \<notin> set ?J" and no: "TOpen \<notin> set ?J" using J by auto
  have pre: "TOpen \<notin> set (map TChar pre)" by auto
  have suf: "TOpen \<notin> set (map TChar suf)" by auto
  have sb: "splitBars ?J = map (map TChar) (map showNat idxs)"
    by (rule splitBars_join) (use assms in auto)
  have alts: "allSome (map parsePieces (splitBars ?J)) = Some (map (\<lambda>i. literalPieces (showNat i)) idxs)"
    unfolding sb allSome_literals by (simp add: comp_def)
  have rest: "parseTerms (map TChar suf) = Some (literalTerms suf)"
    by (simp add: parseTerms_no_group[OF suf] parsePieces_literal map_Piece_literal)
  have "parseTerms (map TChar pre @ TOpen # ?J @ TClose # map TChar suf) =
        Some (alternationPattern pre idxs suf)"
    apply (subst parseTerms.simps)
    apply (simp only: takeWhile_until[OF pre] dropWhile_until[OF pre] parsePieces_literal
        option.case list.case takeWhile_until[OF nc] dropWhile_until[OF nc] alts rest)
    apply (simp add: alternationPattern_def map_Piece_literal)
    done
  with t show ?thesis by (simp add: parsePattern_def)
qed

section \<open>Resolution of rules against the universe\<close>

lemma set_addToSet: "set (addToSet result p) = insert p (set result)"
  by (auto simp: addToSet_def)

lemma set_foldl_test:
  "set (foldl (\<lambda>result p. if t p then addToSet result p else result) acc ps) =
     set acc \<union> {p \<in> set ps. t p}"
  by (induction ps arbitrary: acc) (auto simp: set_addToSet)

lemma startsWith_re: "startsWith (''re:'' @ s) ''re:''"
  by (simp add: startsWith_def)

lemma resolveItem_pattern:
  assumes "startsWith item ''re:''" "parsePattern (drop 3 item) = Some r"
  shows "set (resolveItem platform universe acc item) =
           set acc \<union> {p \<in> set universe. regexTest r p}"
  using assms by (simp add: resolveItem_def compileRegExp_def set_foldl_test)

lemma resolveItem_wildcard:
  "set (resolveItem platform universe acc
          (''re:'' @ escapeRegex pre @ [backslash] @ ''d+'' @ escapeRegex suf)) =
   set acc \<union> {p \<in> set universe.
     \<exists>u ds v. p = u @ pre @ ds @ suf @ v \<and> ds \<noteq> [] \<and> list_all isDigit ds}"
proof -
  have "parsePattern (drop 3 (''re:'' @ escapeRegex pre @ [backslash] @ ''d+'' @ escapeRegex suf)) =
        Some (wildcardPattern pre suf)"
    using parsePattern_wildcard[of pre suf] by simp
  from resolveItem_pattern[OF startsWith_re this]
  show ?thesis by (simp only: regexTest_wildcard)
qed

text \<open>
  Claim C9. A rule that starts with \<open>re:\<close> is tested against every path of the universe by a
  search: a path is added when some substring of it is in the language of the pattern
  (first conjunct), so the wildcard rule emitted for a prefix and a suffix adds every path
  of the universe that contains prefix, digits and suffix anywhere (second conjunct). In
  the universe of \<open>model.layers.0.mlp.down_proj\<close> and
  \<open>vision_model.layers.0.mlp.down_proj\<close>, with the first path selected, the rule emitted is
  the wildcard of the first path's template; it resolves to both paths, and the second has
  another template and ends with the text the rule matches.
\<close>

theorem parseIgnoreItems_unanchored:
  "(startsWith item ''re:'' \<and> parsePattern (drop 3 item) = Some r \<longrightarrow>
      set (resolveItem platform universe [] item) =
        {p \<in> set universe. \<exists>u v w. p = u @ v @ w \<and> v \<in> langTerms r}) \<and>
   set (resolveItem platform universe []
          (''re:'' @ escapeRegex pre @ [backslash] @ ''d+'' @ escapeRegex suf)) =
     {p \<in> set universe. \<exists>u ds v. p = u @ pre @ ds @ suf @ v \<and> ds \<noteq> [] \<and> list_all isDigit ds} \<and>
   optimized (optimizeSelection [''model.layers.0.mlp.down_proj''] visionUniverse) =
     [''re:'' @ escapeRegex ''model.layers.'' @ [backslash] @ ''d+'' @ escapeRegex ''.mlp.down_proj''] \<and>
   parseIgnoreItems platform
       (formatIgnoreList (optimized (optimizeSelection [''model.layers.0.mlp.down_proj''] visionUniverse)))
       visionUniverse =
     [''model.layers.0.mlp.down_proj'', ''vision_model.layers.0.mlp.down_proj''] \<and>
   toTemplate ''model.layers.0.mlp.down_proj'' = Some (''model.layers.{{INDEX}}.mlp.down_proj'', 0) \<and>
   toTemplate ''vision_model.layers.0.mlp.down_proj'' =
     Some (''vision_model.layers.{{INDEX}}.mlp.down_proj'', 0) \<and>
   ''vision_model.layers.0.mlp.down_proj'' = ''vision_'' @ ''model.layers.0.mlp.down_proj''"
proof -
  have 1: "set (resolveItem platform universe [] item) =
        {p \<in> set universe. \<exists>u v w. p = u @ v @ w \<and> v \<in> langTerms r}"
    if "startsWith item ''re:''" "parsePattern (drop 3 item) = Some r"
    using resolveItem_pattern[OF that, of platform universe "[]"]
    by (simp only: regexTest_substring) simp
  have 2: "set (resolveItem platform universe []
          (''re:'' @ escapeRegex pre @ [backslash] @ ''d+'' @ escapeRegex suf)) =
     {p \<in> set universe. \<exists>u ds v. p = u @ pre @ ds @ suf @ v \<and> ds \<noteq> [] \<and> list_all isDigit ds}"
    using resolveItem_wildcard[of platform universe "[]" pre suf] by simp
  have 3: "optimized (optimizeSelection [''model.layers.0.mlp.down_proj''] visionUniverse) =
     [''re:'' @ escapeRegex ''model.layers.'' @ [backslash] @ ''d+'' @ escapeRegex ''.mlp.down_proj'']"
    by code_simp
  have q: "map_option quotedItems (bracketMatch
       (formatIgnoreList (optimized (optimizeSelection [''model.layers.0.mlp.down_proj''] visionUniverse)))) =
     Some [''re:'' @ escapeRegex ''model.layers.'' @ [backslash] @ ''d+'' @ escapeRegex ''.mlp.down_proj'']"
    by code_simp
  have c: "compileRegExp platform
       (drop 3 (''re:'' @ escapeRegex ''model.layers.'' @ [backslash] @ ''d+'' @ escapeRegex ''.mlp.down_proj'')) =
     Some (regexTest (wildcardPattern ''model.layers.'' ''.mlp.down_proj''))"
    using parsePattern_wildcard[of "''model.layers.''" "''.mlp.down_proj''"]
    by (simp add: compileRegExp_def)
  have e: "foldl (\<lambda>result p. if regexTest (wildcardPattern ''model.layers.'' ''.mlp.down_proj'') p
                          then addToSet result p else result) [] visionUniverse =
     [''model.layers.0.mlp.down_proj'', ''vision_model.layers.0.mlp.down_proj'']"
    by code_simp
  have r: "resolveItem platform visionUniverse []
       (''re:'' @ escapeRegex ''model.layers.'' @ [backslash] @ ''d+'' @ escapeRegex ''.mlp.down_proj'') =
     [''model.layers.0.mlp.down_proj'', ''vision_model.layers.0.mlp.down_proj'']"
    unfolding resolveItem_def c using e startsWith_re by simp
  have 4: "parseIgnoreItems platform
       (formatIgnoreList (optimized (optimizeSelection [''model.layers.0.mlp.down_proj''] visionUniverse)))
       visionUniverse =
     [''model.layers.0.mlp.down_proj'', ''vision_model.layers.0.mlp.down_proj'']"
  proof -
    from q obtain inner where b: "bracketMatch
       (formatIgnoreList (optimized (optimizeSelection [''model.layers.0.mlp.down_proj''] visionUniverse))) =
       Some inner"
      and i: "quotedItems inner =
       [''re:'' @ escapeRegex ''model.layers.'' @ [backslash] @ ''d+'' @ escapeRegex ''.mlp.down_proj'']"
      by blast
    show ?thesis
      unfolding parseIgnoreItems_def b option.case i using r by simp
  qed
  have 5: "toTemplate ''model.layers.0.mlp.down_proj'' = Some (''model.layers.{{INDEX}}.mlp.down_proj'', 0)"
    "toTemplate ''vision_model.layers.0.mlp.down_proj'' =
     Some (''vision_model.layers.{{INDEX}}.mlp.down_proj'', 0)"
    by code_simp+
  show ?thesis using 1 2 3 4 5 by simp
qed

lemma wildcard_item_parses:
  "startsWith (''re:'' @ escapeRegex ''h.'' @ [backslash] @ ''d+'' @ escapeRegex ''.w'') ''re:'' \<and>
   parsePattern (drop 3 (''re:'' @ escapeRegex ''h.'' @ [backslash] @ ''d+'' @ escapeRegex ''.w'')) =
     Some (wildcardPattern ''h.'' ''.w'')"
  using parsePattern_wildcard[of "''h.''" "''.w''"] by (simp add: startsWith_def)

theorem parseIgnoreItems_unanchored_witness:
  "startsWith (''re:'' @ escapeRegex ''h.'' @ [backslash] @ ''d+'' @ escapeRegex ''.w'') ''re:'' \<and>
   parsePattern (drop 3 (''re:'' @ escapeRegex ''h.'' @ [backslash] @ ''d+'' @ escapeRegex ''.w'')) =
     Some (wildcardPattern ''h.'' ''.w'') \<and>
   set (resolveItem noPlatform [''h.1.w'', ''x.h.22.w.b'', ''h.w''] []
          (''re:'' @ escapeRegex ''h.'' @ [backslash] @ ''d+'' @ escapeRegex ''.w'')) =
     {p \<in> set [''h.1.w'', ''x.h.22.w.b'', ''h.w''].
        \<exists>u v w. p = u @ v @ w \<and> v \<in> langTerms (wildcardPattern ''h.'' ''.w'')} \<and>
   resolveItem noPlatform [''h.1.w'', ''x.h.22.w.b'', ''h.w''] []
          (''re:'' @ escapeRegex ''h.'' @ [backslash] @ ''d+'' @ escapeRegex ''.w'') =
     [''h.1.w'', ''x.h.22.w.b'']"
proof -
  have e: "resolveItem noPlatform [''h.1.w'', ''x.h.22.w.b'', ''h.w''] []
          (''re:'' @ escapeRegex ''h.'' @ [backslash] @ ''d+'' @ escapeRegex ''.w'') =
     [''h.1.w'', ''x.h.22.w.b'']"
    by code_simp
  have s: "set (resolveItem noPlatform [''h.1.w'', ''x.h.22.w.b'', ''h.w''] []
          (''re:'' @ escapeRegex ''h.'' @ [backslash] @ ''d+'' @ escapeRegex ''.w'')) =
     {p \<in> set [''h.1.w'', ''x.h.22.w.b'', ''h.w''].
        \<exists>u v w. p = u @ v @ w \<and> v \<in> langTerms (wildcardPattern ''h.'' ''.w'')}"
    by (rule parseIgnoreItems_unanchored[THEN conjunct1, THEN mp]) (rule wildcard_item_parses)
  show ?thesis
    by (intro conjI) (rule wildcard_item_parses[THEN conjunct1] wildcard_item_parses[THEN conjunct2] s e)+
qed

section \<open>Properties of the template match\<close>

lemma lastSplit_Nil: "lastSplit acc [] = None"
  by (simp add: lastSplit_def)

lemma lastSplit_Cons:
  "lastSplit acc (c # cs) =
     (case lastSplit (acc @ [c]) cs of
        Some m \<Rightarrow> Some m
      | None \<Rightarrow> if validSplit acc (c # cs)
                then Some (acc, takeWhile isDigit (c # cs), dropWhile isDigit (c # cs)) else None)"
  by (cases "rev (templateSplits (acc @ [c]) cs)") (simp_all add: lastSplit_def)

lemma lastSplit_descend:
  "lastSplit (acc @ x) rest = Some m \<Longrightarrow> lastSplit acc (x @ rest) = Some m"
proof (induction x arbitrary: acc)
  case Nil
  then show ?case by simp
next
  case (Cons c x)
  then have "lastSplit (acc @ [c]) (x @ rest) = Some m" by simp
  then show ?case by (simp add: lastSplit_Cons)
qed

lemma lastSplit_None_iff: "lastSplit acc rest = None \<longleftrightarrow> templateSplits acc rest = []"
  by (cases "rev (templateSplits acc rest)") (simp_all add: lastSplit_def)

lemma lastSplit_Some_mem: "lastSplit acc rest = Some m \<Longrightarrow> m \<in> set (templateSplits acc rest)"
proof -
  assume a: "lastSplit acc rest = Some m"
  then obtain ms where "rev (templateSplits acc rest) = m # ms"
    by (cases "rev (templateSplits acc rest)") (simp_all add: lastSplit_def)
  then have "m \<in> set (rev (templateSplits acc rest))" by simp
  then show ?thesis by simp
qed

lemma templateSplits_mem:
  "(pre, ds, suf) \<in> set (templateSplits acc rest) \<Longrightarrow>
   (\<exists>x. pre = acc @ x \<and> rest = x @ ds @ suf) \<and> validSplit pre (ds @ suf) \<and>
   ds = takeWhile isDigit (ds @ suf) \<and> suf = dropWhile isDigit (ds @ suf)"
proof (induction rest arbitrary: acc)
  case Nil
  then show ?case by simp
next
  case (Cons c cs)
  from Cons.prems consider
    (here) "validSplit acc (c # cs)" "pre = acc" "ds = takeWhile isDigit (c # cs)"
      "suf = dropWhile isDigit (c # cs)"
    | (later) "(pre, ds, suf) \<in> set (templateSplits (acc @ [c]) cs)"
    by (auto split: if_splits)
  then show ?case
  proof cases
    case here
    have "ds @ suf = c # cs" unfolding here by simp
    with here show ?thesis by simp
  next
    case later
    from Cons.IH[OF later] obtain x where "pre = (acc @ [c]) @ x" "cs = x @ ds @ suf"
      and r: "validSplit pre (ds @ suf)" "ds = takeWhile isDigit (ds @ suf)"
        "suf = dropWhile isDigit (ds @ suf)"
      by blast
    then have "pre = acc @ (c # x) \<and> c # cs = (c # x) @ ds @ suf" by simp
    with r show ?thesis by blast
  qed
qed

lemma validSplit_D:
  assumes "validSplit pre rest"
  shows "2 \<le> length pre" "last pre = CHR ''.''" "takeWhile isDigit rest \<noteq> []"
    "\<exists>e r. dropWhile isDigit rest = CHR ''.'' # e # r"
  using assms by (auto simp: validSplit_def split: list.splits)

lemma takeWhile_digits_dot:
  "list_all isDigit ds \<Longrightarrow> takeWhile isDigit (ds @ CHR ''.'' # r) = ds"
  by (induction ds) (simp_all add: isDigit_def)

lemma dropWhile_digits_dot:
  "list_all isDigit ds \<Longrightarrow> dropWhile isDigit (ds @ CHR ''.'' # r) = CHR ''.'' # r"
  by (induction ds) (simp_all add: isDigit_def)

lemma validSplit_instance:
  assumes "2 \<le> length pre" "last pre = CHR ''.''" "ds \<noteq> []" "list_all isDigit ds"
  shows "validSplit pre (ds @ CHR ''.'' # e # r)"
  using assms by (simp add: validSplit_def takeWhile_digits_dot dropWhile_digits_dot)

lemma matchTemplate_lastSplit:
  "matchTemplate p = (if list_ex isLineTerminator p then None else lastSplit [] p)"
  by (simp add: matchTemplate_def lastSplit_def)

lemma lastSplit_SomeD:
  assumes "lastSplit acc rest = Some (pre, ds, suf)"
  shows "acc @ rest = pre @ ds @ suf" "2 \<le> length pre" "last pre = CHR ''.''" "ds \<noteq> []"
    "list_all isDigit ds" "\<exists>e r. suf = CHR ''.'' # e # r"
proof -
  from templateSplits_mem[OF lastSplit_Some_mem[OF assms]] obtain x where
    x: "pre = acc @ x" "rest = x @ ds @ suf" and v: "validSplit pre (ds @ suf)"
    and d: "ds = takeWhile isDigit (ds @ suf)" and s: "suf = dropWhile isDigit (ds @ suf)"
    by blast
  show "acc @ rest = pre @ ds @ suf" using x by simp
  show "2 \<le> length pre" "last pre = CHR ''.''" using validSplit_D[OF v] by simp_all
  show "ds \<noteq> []" using validSplit_D(3)[OF v] d by simp
  have "list_all isDigit (takeWhile isDigit (ds @ suf))"
    by (simp add: list_all_iff) (meson set_takeWhileD)
  then show "list_all isDigit ds" using d by simp
  show "\<exists>e r. suf = CHR ''.'' # e # r" using validSplit_D(4)[OF v] s by simp
qed

lemma matchTemplate_SomeD:
  assumes "matchTemplate p = Some (pre, ds, suf)"
  shows "p = pre @ ds @ suf" "2 \<le> length pre" "last pre = CHR ''.''" "ds \<noteq> []"
    "list_all isDigit ds" "\<exists>e r. suf = CHR ''.'' # e # r" "\<not> list_ex isLineTerminator p"
    "lastSplit [] p = Some (pre, ds, suf)"
proof -
  from assms have n: "\<not> list_ex isLineTerminator p" and l: "lastSplit [] p = Some (pre, ds, suf)"
    by (auto simp: matchTemplate_lastSplit split: if_splits)
  show "\<not> list_ex isLineTerminator p" by (rule n)
  show "lastSplit [] p = Some (pre, ds, suf)" by (rule l)
  show "p = pre @ ds @ suf" using lastSplit_SomeD(1)[OF l] by simp
  show "2 \<le> length pre" "last pre = CHR ''.''" "ds \<noteq> []" "list_all isDigit ds"
    "\<exists>e r. suf = CHR ''.'' # e # r"
    using lastSplit_SomeD[OF l] by simp_all
qed

text \<open>Whether a longer prefix splits the path depends on the accumulated prefix only through
  its last character, once it has two characters.\<close>

lemma validSplit_last:
  "a \<noteq> [] \<Longrightarrow> b \<noteq> [] \<Longrightarrow> validSplit (a @ [c]) rest = validSplit (b @ [c]) rest"
  by (cases a; cases b) (simp_all add: validSplit_def)

lemma templateSplits_empty_last:
  "a \<noteq> [] \<Longrightarrow> b \<noteq> [] \<Longrightarrow>
   templateSplits (a @ [c]) rest = [] \<longleftrightarrow> templateSplits (b @ [c]) rest = []"
proof (induction rest arbitrary: a b c)
  case Nil
  then show ?case by simp
next
  case (Cons x xs)
  have v: "validSplit (a @ [c]) (x # xs) = validSplit (b @ [c]) (x # xs)"
    by (rule validSplit_last[OF Cons.prems])
  have "templateSplits ((a @ [c]) @ [x]) xs = [] \<longleftrightarrow> templateSplits ((b @ [c]) @ [x]) xs = []"
    by (rule Cons.IH) simp_all
  with v show ?case by simp
qed

lemma digit_last_invalid:
  "w \<noteq> [] \<Longrightarrow> isDigit (last w) \<Longrightarrow> \<not> validSplit (acc @ w) rest"
  by (auto simp: validSplit_def isDigit_def)

lemma templateSplits_in_digits:
  "isDigit d \<Longrightarrow> list_all isDigit ds \<Longrightarrow>
   templateSplits (acc @ [d]) (ds @ rest) = templateSplits (acc @ d # ds) rest"
proof (induction ds arbitrary: acc d)
  case Nil
  then show ?case by simp
next
  case (Cons x xs)
  have nv: "\<not> validSplit (acc @ [d]) (x # xs @ rest)"
    using digit_last_invalid[of "[d]" acc] Cons.prems by simp
  have "templateSplits ((acc @ [d]) @ [x]) (xs @ rest) = templateSplits ((acc @ [d]) @ x # xs) rest"
    by (rule Cons.IH) (use Cons.prems in simp_all)
  with nv show ?case by simp
qed

lemma templateSplits_instance:
  assumes "ds \<noteq> []" "list_all isDigit ds" "2 \<le> length pre" "last pre = CHR ''.''"
  shows "templateSplits pre (ds @ CHR ''.'' # e # r) =
           (pre, ds, CHR ''.'' # e # r) # templateSplits (pre @ ds @ ''.'') (e # r)"
proof -
  from assms obtain d ds' where ds: "ds = d # ds'" by (cases ds) auto
  have d: "isDigit d" "list_all isDigit ds'" using assms ds by simp_all
  have v: "validSplit pre (ds @ CHR ''.'' # e # r)"
    by (rule validSplit_instance[OF assms(3,4,1,2)])
  have nv: "\<not> validSplit (pre @ ds) (CHR ''.'' # e # r)"
    using digit_last_invalid[of ds pre] assms by (simp add: list_all_iff)
  have "templateSplits (pre @ [d]) (ds' @ CHR ''.'' # e # r) =
        templateSplits (pre @ d # ds') (CHR ''.'' # e # r)"
    by (rule templateSplits_in_digits[OF d])
  also have "\<dots> = templateSplits (pre @ ds @ ''.'') (e # r)"
    using nv by (simp add: ds)
  finally have t: "templateSplits (pre @ [d]) (ds' @ CHR ''.'' # e # r) =
      templateSplits (pre @ ds @ ''.'') (e # r)" .
  have tw: "takeWhile isDigit (ds @ CHR ''.'' # e # r) = ds"
    and dw: "dropWhile isDigit (ds @ CHR ''.'' # e # r) = CHR ''.'' # e # r"
    using assms by (simp_all add: takeWhile_digits_dot dropWhile_digits_dot)
  have "templateSplits pre (d # (ds' @ CHR ''.'' # e # r)) =
      (pre, ds, CHR ''.'' # e # r) # templateSplits (pre @ [d]) (ds' @ CHR ''.'' # e # r)"
    using v tw dw by (simp add: ds)
  then show ?thesis by (simp add: ds t)
qed

lemma no_later_split:
  assumes "lastSplit [] (pre @ dq @ CHR ''.'' # e # r) = Some (pre, dq, CHR ''.'' # e # r)"
  shows "templateSplits (pre @ dq @ ''.'') (e # r) = []"
proof (rule ccontr)
  assume "templateSplits (pre @ dq @ ''.'') (e # r) \<noteq> []"
  then obtain m where m: "lastSplit (pre @ dq @ ''.'') (e # r) = Some m"
    using lastSplit_None_iff[of "pre @ dq @ ''.''" "e # r"] by (cases "lastSplit (pre @ dq @ ''.'') (e # r)") auto
  have "lastSplit [] ((pre @ dq @ ''.'') @ (e # r)) = Some m"
    by (rule lastSplit_descend) (simp add: m)
  with assms have "m = (pre, dq, CHR ''.'' # e # r)" by simp
  with lastSplit_Some_mem[OF m] have "(pre, dq, CHR ''.'' # e # r) \<in> set (templateSplits (pre @ dq @ ''.'') (e # r))"
    by simp
  from templateSplits_mem[OF this] obtain x where "pre = (pre @ dq @ ''.'') @ x" by blast
  then have "length pre = length ((pre @ dq @ ''.'') @ x)" by simp
  then show False by simp
qed

text \<open>Another path with the prefix and the suffix of a path that matches, and any digits
  between them, matches with the same prefix and suffix.\<close>

lemma matchTemplate_instance:
  assumes q: "matchTemplate q = Some (pre, dq, suf)"
    and ds: "ds \<noteq> []" "list_all isDigit ds"
  shows "matchTemplate (pre @ ds @ suf) = Some (pre, ds, suf)"
proof -
  note D = matchTemplate_SomeD[OF q]
  from D(6) obtain e r where suf: "suf = CHR ''.'' # e # r" by blast
  have dqne: "pre @ dq \<noteq> []" and dsne: "pre @ ds \<noteq> []" using D(4) ds by simp_all
  have "templateSplits (pre @ dq @ ''.'') (e # r) = []"
    by (rule no_later_split) (use D(8) D(1) suf in simp)
  then have "templateSplits ((pre @ dq) @ ''.'') (e # r) = []" by simp
  then have "templateSplits ((pre @ ds) @ ''.'') (e # r) = []"
    using templateSplits_empty_last[OF dqne dsne, of "CHR ''.''" "e # r"] by simp
  then have "templateSplits pre (ds @ suf) = [(pre, ds, suf)]"
    using templateSplits_instance[OF ds D(2,3), of e r] by (simp add: suf)
  then have "lastSplit pre (ds @ suf) = Some (pre, ds, suf)"
    by (simp add: lastSplit_def)
  then have l: "lastSplit [] (pre @ ds @ suf) = Some (pre, ds, suf)"
    using lastSplit_descend[of "[]" pre "ds @ suf"] by simp
  have "\<not> list_ex isLineTerminator q" by (rule D(7))
  then have "\<not> list_ex isLineTerminator pre" "\<not> list_ex isLineTerminator suf"
    by (simp_all add: D(1) list_ex_iff)
  moreover have "\<not> list_ex isLineTerminator ds"
    using ds(2) by (auto simp: list_ex_iff list_all_iff isDigit_def isLineTerminator_def)
  ultimately have "\<not> list_ex isLineTerminator (pre @ ds @ suf)"
    by (auto simp: list_ex_iff)
  with l show ?thesis by (simp add: matchTemplate_lastSplit)
qed

section \<open>Properties of the optimizer's loops\<close>

lemma templateKey_inj:
  assumes "CHR ''{'' \<notin> set a" "CHR ''{'' \<notin> set a'"
    and "a @ ''{{INDEX}}'' @ b = a' @ ''{{INDEX}}'' @ b'"
  shows "a = a' \<and> b = b'"
proof -
  have "takeWhile (\<lambda>y. y \<noteq> CHR ''{'') (a @ CHR ''{'' # (''{INDEX}}'' @ b)) = a"
    by (rule takeWhile_until[OF assms(1)])
  moreover have "takeWhile (\<lambda>y. y \<noteq> CHR ''{'') (a' @ CHR ''{'' # (''{INDEX}}'' @ b')) = a'"
    by (rule takeWhile_until[OF assms(2)])
  ultimately have "a = a'" using assms(3) by simp
  with assms(3) show ?thesis by simp
qed

lemma toTemplate_Some_iff:
  "toTemplate p = Some (t, i) \<longleftrightarrow>
     (\<exists>pre ds suf. matchTemplate p = Some (pre, ds, suf) \<and> t = pre @ ''{{INDEX}}'' @ suf \<and>
        i = parseInt10 ds)"
  by (auto simp: toTemplate_def split: option.splits)

lemma toTemplate_None_iff: "toTemplate p = None \<longleftrightarrow> matchTemplate p = None"
  by (auto simp: toTemplate_def split: option.splits)

lemma templateOf_Some_iff:
  "templateOf p = Some t \<longleftrightarrow>
     (\<exists>pre ds suf. matchTemplate p = Some (pre, ds, suf) \<and> t = pre @ ''{{INDEX}}'' @ suf)"
  by (auto simp: templateOf_def toTemplate_def split: option.splits)

lemma templateOf_None_iff: "templateOf p = None \<longleftrightarrow> toTemplate p = None"
  by (simp add: templateOf_def)

lemma templateOf_toTemplate: "toTemplate p = Some (t, i) \<Longrightarrow> templateOf p = Some t \<and> indexOf p = i"
  by (simp add: templateOf_def indexOf_def)

subsection \<open>The counting loop\<close>

lemma countPath_apply:
  "countPath m p t =
     (if templateOf p = Some t then Some ((case m t of None \<Rightarrow> 0 | Some n \<Rightarrow> n) + 1) else m t)"
  by (auto simp: countPath_def templateOf_def split: option.splits)

lemma foldl_countPath:
  "(case foldl countPath m ps t of None \<Rightarrow> 0 | Some n \<Rightarrow> n) =
     (case m t of None \<Rightarrow> 0 | Some n \<Rightarrow> n) + length (filter (\<lambda>p. templateOf p = Some t) ps)"
proof (induction ps arbitrary: m)
  case Nil
  then show ?case by simp
next
  case (Cons p ps)
  show ?case
    unfolding foldl_Cons Cons.IH by (simp add: countPath_apply)
qed

lemma total_for_template:
  "(case foldl countPath Map.empty ps t of None \<Rightarrow> 0 | Some n \<Rightarrow> n) =
     length (filter (\<lambda>p. templateOf p = Some t) ps)"
  using foldl_countPath[of Map.empty ps t] by simp

subsection \<open>The grouping loop\<close>

lemma map_fst_pushIndex: "map fst (pushIndex groups k i) = map fst groups"
  by (induction groups) (auto simp: pushIndex_def)

lemma set_pushIndex:
  "set (pushIndex groups k i) =
     (\<lambda>(k', g). if k' = k then (k', g\<lparr>grp_indices := grp_indices g @ [i]\<rparr>) else (k', g)) ` set groups"
  by (simp add: pushIndex_def)

lemma pushIndex_mem:
  assumes "(k, g') \<in> set (pushIndex groups t i)"
  shows "\<exists>g0. (k, g0) \<in> set groups \<and>
           g' = (if k = t then g0\<lparr>grp_indices := grp_indices g0 @ [i]\<rparr> else g0)"
  using assms
proof (induction groups)
  case Nil
  then show ?case by (simp add: pushIndex_def)
next
  case (Cons a groups)
  obtain ka ga where a: "a = (ka, ga)" by (cases a)
  from Cons.prems have
    "(k, g') = (if ka = t then (ka, ga\<lparr>grp_indices := grp_indices ga @ [i]\<rparr>) else (ka, ga)) \<or>
     (k, g') \<in> set (pushIndex groups t i)"
    by (simp add: pushIndex_def a)
  then show ?case
  proof
    assume "(k, g') = (if ka = t then (ka, ga\<lparr>grp_indices := grp_indices ga @ [i]\<rparr>) else (ka, ga))"
    then have "k = ka" "g' = (if k = t then ga\<lparr>grp_indices := grp_indices ga @ [i]\<rparr> else ga)"
      by (simp_all split: if_splits)
    then show ?thesis using a by auto
  next
    assume "(k, g') \<in> set (pushIndex groups t i)"
    from Cons.IH[OF this] show ?thesis by auto
  qed
qed

lemma groupPath_nonTemplated:
  "snd (foldl groupPath (groups, nt) ps) = nt @ filter (\<lambda>p. templateOf p = None) ps"
proof (induction ps arbitrary: groups nt)
  case Nil
  then show ?case by simp
next
  case (Cons p ps)
  obtain g' n' where s: "groupPath (groups, nt) p = (g', n')" by (cases "groupPath (groups, nt) p")
  have n': "n' = (if templateOf p = None then nt @ [p] else nt)"
    using s by (auto simp: groupPath_def Let_def templateOf_def split: option.splits)
  show ?case
    unfolding foldl_Cons s Cons.IH by (simp add: n')
qed

lemma groupsInv_empty: "groupsInv [] []"
  by (simp add: groupsInv_def)

lemma groupsInvI:
  assumes "distinct (map fst groups)"
    and "set (map fst groups) = {t. \<exists>p \<in> set seen. templateOf p = Some t}"
    and "\<And>k g. (k, g) \<in> set groups \<Longrightarrow>
         grp_indices g = map indexOf (filter (\<lambda>p. templateOf p = Some k) seen) \<and>
         (\<exists>q \<in> set seen. \<exists>dq. matchTemplate q = Some (grp_prefix g, dq, grp_suffix g) \<and>
            k = grp_prefix g @ ''{{INDEX}}'' @ grp_suffix g)"
  shows "groupsInv seen groups"
  unfolding groupsInv_def using assms by blast

lemma groupsInvD:
  assumes "groupsInv seen groups"
  shows "distinct (map fst groups)"
    and "set (map fst groups) = {t. \<exists>p \<in> set seen. templateOf p = Some t}"
    and "\<And>k g. (k, g) \<in> set groups \<Longrightarrow>
         grp_indices g = map indexOf (filter (\<lambda>p. templateOf p = Some k) seen) \<and>
         (\<exists>q \<in> set seen. \<exists>dq. matchTemplate q = Some (grp_prefix g, dq, grp_suffix g) \<and>
            k = grp_prefix g @ ''{{INDEX}}'' @ grp_suffix g)"
  using assms unfolding groupsInv_def by blast+

lemma groupsInv_step:
  assumes inv: "groupsInv seen groups"
  shows "groupsInv (seen @ [x]) (fst (groupPath (groups, nt) x))"
proof (cases "toTemplate x")
  case None
  then have t: "templateOf x = None" by (simp add: templateOf_def)
  have g: "fst (groupPath (groups, nt) x) = groups"
    by (simp add: groupPath_def None)
  show ?thesis
    unfolding g
  proof (rule groupsInvI)
    show "distinct (map fst groups)" by (rule groupsInvD(1)[OF inv])
    show "set (map fst groups) = {t. \<exists>p \<in> set (seen @ [x]). templateOf p = Some t}"
      using groupsInvD(2)[OF inv] t by auto
    fix k g assume "(k, g) \<in> set groups"
    from groupsInvD(3)[OF inv this]
    show "grp_indices g = map indexOf (filter (\<lambda>p. templateOf p = Some k) (seen @ [x])) \<and>
         (\<exists>q \<in> set (seen @ [x]). \<exists>dq. matchTemplate q = Some (grp_prefix g, dq, grp_suffix g) \<and>
            k = grp_prefix g @ ''{{INDEX}}'' @ grp_suffix g)"
      using t by auto
  qed
next
  case (Some ti)
  obtain t i where ti: "ti = (t, i)" by (cases ti)
  with Some have tt: "toTemplate x = Some (t, i)" by simp
  then obtain m1 m2 m3 where m: "matchTemplate x = Some (m1, m2, m3)"
    and t: "t = m1 @ ''{{INDEX}}'' @ m3" and i: "i = parseInt10 m2"
    unfolding toTemplate_Some_iff by blast
  have tx: "templateOf x = Some t" and ix: "indexOf x = i"
    using templateOf_toTemplate[OF tt] by simp_all
  note d = groupsInvD(1)[OF inv] and keys = groupsInvD(2)[OF inv] and each = groupsInvD(3)[OF inv]
  show ?thesis
  proof (cases "hasKey groups t")
    case True
    have g: "fst (groupPath (groups, nt) x) = pushIndex groups t i"
      by (simp add: groupPath_def tt True)
    have k2: "set (map fst groups) = {t. \<exists>p \<in> set (seen @ [x]). templateOf p = Some t}"
      using keys True tx by (auto simp: hasKey_def)
    have e2: "grp_indices g' = map indexOf (filter (\<lambda>p. templateOf p = Some k) (seen @ [x])) \<and>
         (\<exists>q \<in> set (seen @ [x]). \<exists>dq. matchTemplate q = Some (grp_prefix g', dq, grp_suffix g') \<and>
            k = grp_prefix g' @ ''{{INDEX}}'' @ grp_suffix g')"
      if "(k, g') \<in> set (pushIndex groups t i)" for k g'
    proof -
      from pushIndex_mem[OF that] obtain g0 where g0: "(k, g0) \<in> set groups"
        and g': "g' = (if k = t then g0\<lparr>grp_indices := grp_indices g0 @ [i]\<rparr> else g0)"
        by blast
      from each[OF g0] show ?thesis
        unfolding g' using tx ix by auto
    qed
    show ?thesis
      unfolding g
      by (rule groupsInvI) (simp_all only: map_fst_pushIndex d k2 e2)
  next
    case False
    let ?new = "(t, \<lparr>grp_template = t, grp_prefix = m1, grp_suffix = m3, grp_indices = []\<rparr>)"
    have g: "fst (groupPath (groups, nt) x) = pushIndex (groups @ [?new]) t i"
      by (simp add: groupPath_def tt False m)
    have notin: "t \<notin> set (map fst groups)" using False by (simp add: hasKey_def)
    then have none: "filter (\<lambda>p. templateOf p = Some t) seen = []"
      using keys by (auto simp: filter_empty_conv)
    have d2: "distinct (map fst (groups @ [?new]))" using d notin by simp
    have k2: "set (map fst (groups @ [?new])) = {t. \<exists>p \<in> set (seen @ [x]). templateOf p = Some t}"
      using keys tx by auto
    have e2: "grp_indices g' = map indexOf (filter (\<lambda>p. templateOf p = Some k) (seen @ [x])) \<and>
         (\<exists>q \<in> set (seen @ [x]). \<exists>dq. matchTemplate q = Some (grp_prefix g', dq, grp_suffix g') \<and>
            k = grp_prefix g' @ ''{{INDEX}}'' @ grp_suffix g')"
      if "(k, g') \<in> set (pushIndex (groups @ [?new]) t i)" for k g'
    proof -
      from pushIndex_mem[OF that] obtain g0 where g0: "(k, g0) \<in> set (groups @ [?new])"
        and g': "g' = (if k = t then g0\<lparr>grp_indices := grp_indices g0 @ [i]\<rparr> else g0)"
        by blast
      show ?thesis
      proof (cases "k = t")
        case True
        with g0 notin have "g0 = snd ?new"
          by (auto simp: image_iff)
        with True g' have "g' = \<lparr>grp_template = t, grp_prefix = m1, grp_suffix = m3, grp_indices = [i]\<rparr>"
          by simp
        then show ?thesis
          using True none tx ix m t by auto
      next
        case False
        with g0 have "(k, g0) \<in> set groups" by auto
        from each[OF this] show ?thesis
          using False g' tx by auto
      qed
    qed
    show ?thesis
      unfolding g
      by (rule groupsInvI) (simp_all only: map_fst_pushIndex d2 k2 e2)
  qed
qed

lemma groupsInv_foldl:
  "groupsInv seen groups \<Longrightarrow> groupsInv (seen @ ps) (fst (foldl groupPath (groups, nt) ps))"
proof (induction ps arbitrary: seen groups nt)
  case Nil
  then show ?case by simp
next
  case (Cons p ps)
  obtain g' n' where s: "groupPath (groups, nt) p = (g', n')" by (cases "groupPath (groups, nt) p")
  have "groupsInv (seen @ [p]) g'"
    using groupsInv_step[OF Cons.prems, of p nt] s by simp
  from Cons.IH[OF this, of n'] show ?case
    by (simp add: s)
qed

lemma groupsInv_optimize:
  "groupsInv sel (fst (foldl groupPath ([], []) sel))"
  using groupsInv_foldl[OF groupsInv_empty, of sel "[]"] by simp

section \<open>The ignore-list text gives back its items\<close>

lemma quotedItems_skip: "\<not> isQuote c \<Longrightarrow> quotedItems (c # cs) = quotedItems cs"
  by (simp add: quotedItems.simps)

lemma quotedItems_skip_word:
  "\<forall>c \<in> set w. \<not> isQuote c \<Longrightarrow> quotedItems (w @ cs) = quotedItems cs"
  by (induction w) (simp_all add: quotedItems_skip)

lemma takeWhile_item:
  "\<forall>c \<in> set item. \<not> isQuote c \<Longrightarrow> isQuote q \<Longrightarrow>
   takeWhile (\<lambda>x. \<not> isQuote x) (item @ q # rest) = item"
  by (induction item) simp_all

lemma dropWhile_item:
  "\<forall>c \<in> set item. \<not> isQuote c \<Longrightarrow> isQuote q \<Longrightarrow>
   dropWhile (\<lambda>x. \<not> isQuote x) (item @ q # rest) = q # rest"
  by (induction item) simp_all

lemma quotedItems_item:
  assumes "item \<noteq> []" "\<forall>c \<in> set item. \<not> isQuote c" "isQuote q1" "isQuote q2"
  shows "quotedItems (q1 # item @ q2 # rest) = item # quotedItems rest"
  using assms by (simp add: quotedItems.simps takeWhile_item dropWhile_item)

lemma quotedItems_lines:
  assumes "\<forall>item \<in> set items. quotable item"
  shows "quotedItems (concat (map (\<lambda>item. newline # ''    '' @ [dquote] @ item @ [dquote] @ '','') items) @ tail) =
           items @ quotedItems tail"
  using assms
proof (induction items)
  case Nil
  then show ?case by simp
next
  case (Cons item items)
  then have q: "item \<noteq> []" "\<forall>c \<in> set item. \<not> isQuote c"
    and ih: "quotedItems (concat (map (\<lambda>item. newline # ''    '' @ [dquote] @ item @ [dquote] @ '','') items) @ tail) =
           items @ quotedItems tail"
    by (simp_all add: quotable_def)
  let ?rest = "concat (map (\<lambda>item. newline # ''    '' @ [dquote] @ item @ [dquote] @ '','') items) @ tail"
  have "quotedItems (concat (map (\<lambda>item. newline # ''    '' @ [dquote] @ item @ [dquote] @ '','') (item # items)) @ tail) =
        quotedItems ((newline # ''    '') @ (dquote # item @ dquote # (CHR '','' # ?rest)))"
    by simp
  also have "\<dots> = quotedItems (dquote # item @ dquote # (CHR '','' # ?rest))"
    by (rule quotedItems_skip_word) (simp add: isQuote_def)
  also have "\<dots> = item # quotedItems (CHR '','' # ?rest)"
    by (rule quotedItems_item[OF q]) (simp_all add: isQuote_def)
  also have "\<dots> = item # quotedItems ?rest"
    by (simp add: quotedItems_skip isQuote_def)
  also have "\<dots> = item # (items @ quotedItems tail)"
    by (simp only: ih)
  finally show ?case by (simp only: append_Cons)
qed

lemma text_round_trip:
  assumes "\<forall>item \<in> set items. quotable item"
  shows "parseIgnoreItems platform (formatIgnoreList items) universe =
           foldl (resolveItem platform universe) [] items"
proof (cases items)
  case Nil
  have "bracketMatch ''ignore=[]'' = Some []" by simp
  then show ?thesis
    by (simp add: Nil parseIgnoreItems_def formatIgnoreList_def formatStringList_def
        quotedItems.simps)
next
  case (Cons x xs)
  let ?line = "\<lambda>item. ''    '' @ [dquote] @ item @ [dquote] @ '',''"
  let ?inner = "concat (map (\<lambda>item. newline # ?line item) items) @ [newline]"
  have j: "newline # join [newline] (map ?line items) = concat (map (\<lambda>item. newline # ?line item) items)"
    by (simp add: Cons join_Cons comp_def)
  have f: "formatIgnoreList items = ''ignore='' @ ''['' @ ?inner @ '']'' @ []"
    using j by (simp add: formatIgnoreList_def formatStringList_def Cons)
  have nb: "CHR '']'' \<notin> set ?inner"
    using assms by (auto simp: quotable_def)
  have "bracketMatch (''ignore='' @ ''['' @ ?inner @ '']'' @ []) = Some ?inner"
    by (rule bracketMatch_first[OF _ nb]) simp
  then have b: "bracketMatch (formatIgnoreList items) = Some ?inner" by (simp only: f)
  have "quotedItems ?inner = items @ quotedItems [newline]"
    by (rule quotedItems_lines[OF assms])
  then have q: "quotedItems ?inner = items" by (simp add: quotedItems.simps isQuote_def)
  show ?thesis
    unfolding parseIgnoreItems_def b option.case q ..
qed

section \<open>Resolution of an item list\<close>

lemma set_resolveItem:
  "set (resolveItem platform universe acc item) =
     set acc \<union> set (resolveItem platform universe [] item)"
  by (auto simp: resolveItem_def set_foldl_test set_addToSet split: option.splits)

lemma set_foldl_resolveItem:
  "set (foldl (resolveItem platform universe) acc items) =
     set acc \<union> (\<Union>item \<in> set items. set (resolveItem platform universe [] item))"
proof (induction items arbitrary: acc)
  case Nil
  then show ?case by simp
next
  case (Cons item items)
  show ?case
    unfolding foldl_Cons Cons.IH set_resolveItem[of platform universe acc item] by auto
qed

lemma resolveItem_literal:
  "\<not> startsWith item ''re:'' \<Longrightarrow>
   set (resolveItem platform universe [] item) = (if item \<in> set universe then {item} else {})"
  by (simp add: resolveItem_def set_addToSet)

lemma resolveItem_alternation:
  assumes "idxs \<noteq> []"
  shows "set (resolveItem platform universe acc
          (''re:'' @ escapeRegex pre @ ''('' @ join ''|'' (map showNat idxs) @ '')'' @ escapeRegex suf)) =
   set acc \<union> {p \<in> set universe. \<exists>u i v. i \<in> set idxs \<and> p = u @ pre @ showNat i @ suf @ v}"
proof -
  have "parsePattern (drop 3 (''re:'' @ escapeRegex pre @ ''('' @ join ''|'' (map showNat idxs) @ '')'' @
          escapeRegex suf)) = Some (alternationPattern pre idxs suf)"
    using parsePattern_alternation[OF assms, of pre suf] by simp
  from resolveItem_pattern[OF startsWith_re this]
  show ?thesis by (simp only: regexTest_alternation)
qed

section \<open>The rules of one template group\<close>

lemma plainPath_D:
  assumes "plainPath p"
  shows "p \<noteq> []" "\<not> startsWith p ''re:''" "CHR ''{'' \<notin> set p" "quotable p"
  using assms by (auto simp: plainPath_def quotable_def list_all_iff isQuote_def)

lemma same_split:
  assumes "templateOf p = Some (pre @ ''{{INDEX}}'' @ suf)" "CHR ''{'' \<notin> set p" "CHR ''{'' \<notin> set pre"
  shows "\<exists>ds. matchTemplate p = Some (pre, ds, suf)"
proof -
  from assms(1) obtain pre' ds suf' where m: "matchTemplate p = Some (pre', ds, suf')"
    and k: "pre @ ''{{INDEX}}'' @ suf = pre' @ ''{{INDEX}}'' @ suf'"
    unfolding templateOf_Some_iff by blast
  have "p = pre' @ ds @ suf'" by (rule matchTemplate_SomeD(1)[OF m])
  with assms(2) have "CHR ''{'' \<notin> set pre'" by simp
  from templateKey_inj[OF assms(3) this k] m show ?thesis by blast
qed

lemma indexOf_match: "matchTemplate p = Some (pre, ds, suf) \<Longrightarrow> indexOf p = parseInt10 ds"
  by (simp add: indexOf_def toTemplate_def)

lemma templateOf_match:
  "matchTemplate p = Some (pre, ds, suf) \<Longrightarrow> templateOf p = Some (pre @ ''{{INDEX}}'' @ suf)"
  by (simp add: templateOf_def toTemplate_def)

lemma selected_member_form:
  assumes q: "q \<in> set sel" "matchTemplate q = Some (pre, dq, suf)"
    and plain: "\<forall>p \<in> set sel. plainPath p" and canon: "\<forall>p \<in> set sel. canonicalIndex p"
    and p: "p \<in> set sel" "templateOf p = Some (pre @ ''{{INDEX}}'' @ suf)"
  shows "p = pre @ showNat (indexOf p) @ suf"
proof -
  have "q = pre @ dq @ suf" by (rule matchTemplate_SomeD(1)[OF q(2)])
  moreover have "CHR ''{'' \<notin> set q" using plain q(1) plainPath_D(3) by blast
  ultimately have b: "CHR ''{'' \<notin> set pre" by simp
  have "CHR ''{'' \<notin> set p" using plain p(1) plainPath_D(3) by blast
  from same_split[OF p(2) this b] obtain ds where m: "matchTemplate p = Some (pre, ds, suf)" by blast
  have "canonicalIndex p" using canon p(1) by blast
  then have "showNat (parseInt10 ds) = ds" by (simp add: canonicalIndex_def m)
  then have "showNat (indexOf p) = ds" by (simp add: indexOf_match[OF m])
  with matchTemplate_SomeD(1)[OF m] show ?thesis by simp
qed

lemma selected_of_group:
  assumes q: "q \<in> set sel" "matchTemplate q = Some (pre, dq, suf)"
    and plain: "\<forall>p \<in> set sel. plainPath p" and canon: "\<forall>p \<in> set sel. canonicalIndex p"
    and idxs: "idxs = map indexOf (filter (\<lambda>p. templateOf p = Some (pre @ ''{{INDEX}}'' @ suf)) sel)"
  shows "{p \<in> set sel. templateOf p = Some (pre @ ''{{INDEX}}'' @ suf)} =
           {pre @ showNat i @ suf | i. i \<in> set idxs}"
proof (intro set_eqI iffI)
  fix p assume "p \<in> {p \<in> set sel. templateOf p = Some (pre @ ''{{INDEX}}'' @ suf)}"
  then have p: "p \<in> set sel" "templateOf p = Some (pre @ ''{{INDEX}}'' @ suf)" by simp_all
  have "p = pre @ showNat (indexOf p) @ suf"
    by (rule selected_member_form[OF q plain canon p])
  moreover have "indexOf p \<in> set idxs" using p by (simp add: idxs)
  ultimately show "p \<in> {pre @ showNat i @ suf | i. i \<in> set idxs}" by blast
next
  fix p assume "p \<in> {pre @ showNat i @ suf | i. i \<in> set idxs}"
  then obtain i where i: "i \<in> set idxs" and pi: "p = pre @ showNat i @ suf" by blast
  from i obtain p' where p': "p' \<in> set sel" "templateOf p' = Some (pre @ ''{{INDEX}}'' @ suf)"
    and "indexOf p' = i"
    by (auto simp: idxs)
  with selected_member_form[OF q plain canon p'] pi have "p = p'" by simp
  with p' show "p \<in> {p \<in> set sel. templateOf p = Some (pre @ ''{{INDEX}}'' @ suf)}" by simp
qed

lemma length_filter_card:
  assumes "distinct xs"
  shows "length (filter P xs) = card {x \<in> set xs. P x}"
proof -
  have "distinct (filter P xs)" using assms by simp
  then have "card (set (filter P xs)) = length (filter P xs)"
    by (rule distinct_card)
  moreover have "set (filter P xs) = {x \<in> set xs. P x}" by auto
  ultimately show ?thesis by simp
qed

lemma anchoredD:
  assumes "anchored sel universe" "q \<in> set sel" "matchTemplate q = Some (pre, dq, suf)"
    and "p \<in> set universe" "p = u @ pre @ ds @ suf @ v" "ds \<noteq> []" "list_all isDigit ds"
  shows "u = [] \<and> v = []"
proof -
  from assms(1,2,4) have "case matchTemplate q of None \<Rightarrow> True
        | Some (pre, ds, suf) \<Rightarrow> \<not> properInstance pre suf p"
    unfolding anchored_def by blast
  then have "\<not> properInstance pre suf p" by (simp add: assms(3))
  then show ?thesis
    unfolding properInstance_def using assms(5,6,7) by blast
qed

text \<open>When as many paths of a template are selected as the universe has, the paths that the
  wildcard rule resolves to are the selected paths of the template.\<close>

lemma wildcard_resolves:
  assumes d: "distinct sel" and sub: "set sel \<subseteq> set universe"
    and plain: "\<forall>p \<in> set sel. plainPath p" and canon: "\<forall>p \<in> set sel. canonicalIndex p"
    and anch: "anchored sel universe"
    and q: "q \<in> set sel" "matchTemplate q = Some (pre, dq, suf)"
    and eq: "length (filter (\<lambda>p. templateOf p = Some (pre @ ''{{INDEX}}'' @ suf)) sel) =
             length (filter (\<lambda>p. templateOf p = Some (pre @ ''{{INDEX}}'' @ suf)) universe)"
  shows "{p \<in> set universe. \<exists>u ds v. p = u @ pre @ ds @ suf @ v \<and> ds \<noteq> [] \<and> list_all isDigit ds} =
         {p \<in> set sel. templateOf p = Some (pre @ ''{{INDEX}}'' @ suf)}"
proof -
  let ?k = "pre @ ''{{INDEX}}'' @ suf"
  let ?S = "{p \<in> set sel. templateOf p = Some ?k}"
  let ?U = "{p \<in> set universe. templateOf p = Some ?k}"
  have "card ?U \<le> length (filter (\<lambda>p. templateOf p = Some ?k) universe)"
  proof -
    have "?U = set (filter (\<lambda>p. templateOf p = Some ?k) universe)" by auto
    then show ?thesis by (simp only: card_length)
  qed
  also have "\<dots> = card ?S"
    using length_filter_card[OF d, of "\<lambda>p. templateOf p = Some ?k"] eq by simp
  finally have c: "card ?U \<le> card ?S" .
  have "?S \<subseteq> ?U" using sub by auto
  moreover have "finite ?U" by simp
  ultimately have SU: "?S = ?U" using c by (simp add: card_seteq)
  show ?thesis
  proof (intro set_eqI iffI)
    fix p assume "p \<in> {p \<in> set universe. \<exists>u ds v. p = u @ pre @ ds @ suf @ v \<and> ds \<noteq> [] \<and> list_all isDigit ds}"
    then obtain u ds v where pu: "p \<in> set universe" and pe: "p = u @ pre @ ds @ suf @ v"
      and ds: "ds \<noteq> []" "list_all isDigit ds" by blast
    from anchoredD[OF anch q pu pe ds] pe have "p = pre @ ds @ suf" by simp
    then have "matchTemplate p = Some (pre, ds, suf)"
      using matchTemplate_instance[OF q(2) ds] by simp
    then have "templateOf p = Some ?k" by (rule templateOf_match)
    with pu have "p \<in> ?U" by simp
    then show "p \<in> ?S" by (simp only: SU)
  next
    fix p assume pS: "p \<in> ?S"
    then have p: "p \<in> set sel" "templateOf p = Some ?k" by simp_all
    have "CHR ''{'' \<notin> set q" using plain q(1) plainPath_D(3) by blast
    then have b: "CHR ''{'' \<notin> set pre" using matchTemplate_SomeD(1)[OF q(2)] by simp
    have "CHR ''{'' \<notin> set p" using plain p(1) plainPath_D(3) by blast
    from same_split[OF p(2) this b] obtain ds where m: "matchTemplate p = Some (pre, ds, suf)" by blast
    have "p = [] @ pre @ ds @ suf @ []" using matchTemplate_SomeD(1)[OF m] by simp
    moreover have "ds \<noteq> []" "list_all isDigit ds" using matchTemplate_SomeD(4,5)[OF m] by simp_all
    moreover have "p \<in> set universe" using p(1) sub by blast
    ultimately show "p \<in> {p \<in> set universe. \<exists>u ds v. p = u @ pre @ ds @ suf @ v \<and> ds \<noteq> [] \<and> list_all isDigit ds}"
      by blast
  qed
qed

lemma alternation_resolves:
  assumes sub: "set sel \<subseteq> set universe"
    and plain: "\<forall>p \<in> set sel. plainPath p" and canon: "\<forall>p \<in> set sel. canonicalIndex p"
    and anch: "anchored sel universe"
    and q: "q \<in> set sel" "matchTemplate q = Some (pre, dq, suf)"
    and idxs: "set idxs = set (map indexOf (filter (\<lambda>p. templateOf p = Some (pre @ ''{{INDEX}}'' @ suf)) sel))"
  shows "{p \<in> set universe. \<exists>u i v. i \<in> set idxs \<and> p = u @ pre @ showNat i @ suf @ v} =
         {p \<in> set sel. templateOf p = Some (pre @ ''{{INDEX}}'' @ suf)}"
proof -
  let ?k = "pre @ ''{{INDEX}}'' @ suf"
  have S: "{p \<in> set sel. templateOf p = Some ?k} = {pre @ showNat i @ suf | i. i \<in> set idxs}"
    using selected_of_group[OF q plain canon refl] idxs by simp
  show ?thesis
  proof (intro set_eqI iffI)
    fix p assume "p \<in> {p \<in> set universe. \<exists>u i v. i \<in> set idxs \<and> p = u @ pre @ showNat i @ suf @ v}"
    then obtain u i v where pu: "p \<in> set universe" and i: "i \<in> set idxs"
      and pe: "p = u @ pre @ showNat i @ suf @ v" by blast
    have ds: "showNat i \<noteq> []" "list_all isDigit (showNat i)" using showNat_digits[of i] by simp_all
    from anchoredD[OF anch q pu pe ds] pe have "p = pre @ showNat i @ suf" by simp
    with i have "p \<in> {pre @ showNat i @ suf | i. i \<in> set idxs}" by blast
    then show "p \<in> {p \<in> set sel. templateOf p = Some ?k}" by (simp only: S)
  next
    fix p assume a: "p \<in> {p \<in> set sel. templateOf p = Some ?k}"
    then have "p \<in> {pre @ showNat i @ suf | i. i \<in> set idxs}" by (simp only: S)
    then obtain i where "i \<in> set idxs" "p = [] @ pre @ showNat i @ suf @ []" by auto
    moreover have "p \<in> set universe" using a sub by blast
    ultimately show "p \<in> {p \<in> set universe. \<exists>u i v. i \<in> set idxs \<and> p = u @ pre @ showNat i @ suf @ v}"
      by blast
  qed
qed

lemma literals_resolve:
  assumes sub: "set sel \<subseteq> set universe"
    and plain: "\<forall>p \<in> set sel. plainPath p" and canon: "\<forall>p \<in> set sel. canonicalIndex p"
    and q: "q \<in> set sel" "matchTemplate q = Some (pre, dq, suf)"
    and idxs: "set idxs = set (map indexOf (filter (\<lambda>p. templateOf p = Some (pre @ ''{{INDEX}}'' @ suf)) sel))"
  shows "(\<Union>item \<in> set (map (\<lambda>i. pre @ showNat i @ suf) idxs). set (resolveItem platform universe [] item)) =
         {p \<in> set sel. templateOf p = Some (pre @ ''{{INDEX}}'' @ suf)}"
proof -
  let ?k = "pre @ ''{{INDEX}}'' @ suf"
  have S: "{p \<in> set sel. templateOf p = Some ?k} = {pre @ showNat i @ suf | i. i \<in> set idxs}"
    using selected_of_group[OF q plain canon refl] idxs by simp
  have one: "set (resolveItem platform universe [] item) = {item}"
    if "item \<in> {pre @ showNat i @ suf | i. i \<in> set idxs}" for item
  proof -
    from that have "item \<in> {p \<in> set sel. templateOf p = Some ?k}" by (simp only: S)
    then have s: "item \<in> set sel" by simp
    then have "\<not> startsWith item ''re:''" using plain plainPath_D(2) by blast
    moreover have "item \<in> set universe" using s sub by blast
    ultimately show ?thesis by (simp add: resolveItem_literal)
  qed
  have "(\<Union>item \<in> set (map (\<lambda>i. pre @ showNat i @ suf) idxs). set (resolveItem platform universe [] item)) =
        (\<Union>item \<in> {pre @ showNat i @ suf | i. i \<in> set idxs}. set (resolveItem platform universe [] item))"
    by (rule arg_cong[where f = "\<lambda>A. \<Union>item \<in> A. set (resolveItem platform universe [] item)"]) auto
  also have "\<dots> = (\<Union>item \<in> {pre @ showNat i @ suf | i. i \<in> set idxs}. {item})"
    using one by (intro SUP_cong refl) 
  also have "\<dots> = {pre @ showNat i @ suf | i. i \<in> set idxs}" by blast
  finally show ?thesis by (simp only: S)
qed

section \<open>The round trip\<close>

lemma set_escapeRegex: "set (escapeRegex w) \<subseteq> insert backslash (set w)"
  by (induction w) (auto simp: escapeRegex_def)

lemma quotable_chars:
  assumes "w \<noteq> []" "\<And>c. c \<in> set w \<Longrightarrow> \<not> isQuote c \<and> c \<noteq> CHR '']''"
  shows "quotable w"
  using assms by (simp add: quotable_def)

lemma escapeRegex_chars:
  assumes "\<forall>c \<in> set w. \<not> isQuote c \<and> c \<noteq> CHR '']''" "c \<in> set (escapeRegex w)"
  shows "\<not> isQuote c \<and> c \<noteq> CHR '']''"
proof -
  from set_escapeRegex[of w] assms(2) have "c = backslash \<or> c \<in> set w" by auto
  then show ?thesis using assms(1) by (auto simp: isQuote_def)
qed

lemma quotable_wildcard:
  assumes "\<forall>c \<in> set pre. \<not> isQuote c \<and> c \<noteq> CHR '']''" "\<forall>c \<in> set suf. \<not> isQuote c \<and> c \<noteq> CHR '']''"
  shows "quotable (''re:'' @ escapeRegex pre @ [backslash] @ ''d+'' @ escapeRegex suf)"
proof (rule quotable_chars)
  show "''re:'' @ escapeRegex pre @ [backslash] @ ''d+'' @ escapeRegex suf \<noteq> []" by simp
next
  fix c assume "c \<in> set (''re:'' @ escapeRegex pre @ [backslash] @ ''d+'' @ escapeRegex suf)"
  then consider "c \<in> set ''re:''" | "c \<in> set (escapeRegex pre)" | "c \<in> set ([backslash] @ ''d+'')"
    | "c \<in> set (escapeRegex suf)" by auto
  then show "\<not> isQuote c \<and> c \<noteq> CHR '']''"
  proof cases
    case 1 then show ?thesis by (auto simp: isQuote_def)
  next
    case 2 then show ?thesis by (rule escapeRegex_chars[OF assms(1)])
  next
    case 3 then show ?thesis by (auto simp: isQuote_def)
  next
    case 4 then show ?thesis by (rule escapeRegex_chars[OF assms(2)])
  qed
qed

lemma join_bar_chars:
  assumes "c \<in> set (join ''|'' (map showNat idxs))"
  shows "\<not> isQuote c \<and> c \<noteq> CHR '']''"
proof -
  from set_join_subset[of "''|''" "map showNat idxs"] assms
  have "c = CHR ''|'' \<or> (\<exists>i. c \<in> set (showNat i))" by auto
  then show ?thesis
  proof
    assume "c = CHR ''|''"
    then show ?thesis by (simp add: isQuote_def)
  next
    assume "\<exists>i. c \<in> set (showNat i)"
    then obtain i where "c \<in> set (showNat i)" by blast
    then have "isDigit c" using showNat_digits[of i] by (simp add: list_all_iff)
    then show ?thesis by (auto simp: isDigit_def isQuote_def)
  qed
qed

lemma quotable_alternation:
  assumes "\<forall>c \<in> set pre. \<not> isQuote c \<and> c \<noteq> CHR '']''" "\<forall>c \<in> set suf. \<not> isQuote c \<and> c \<noteq> CHR '']''"
  shows "quotable (''re:'' @ escapeRegex pre @ ''('' @ join ''|'' (map showNat idxs) @ '')'' @ escapeRegex suf)"
proof (rule quotable_chars)
  show "''re:'' @ escapeRegex pre @ ''('' @ join ''|'' (map showNat idxs) @ '')'' @ escapeRegex suf \<noteq> []"
    by simp
next
  fix c
  assume "c \<in> set (''re:'' @ escapeRegex pre @ ''('' @ join ''|'' (map showNat idxs) @ '')'' @ escapeRegex suf)"
  then consider "c \<in> set ''re:()''" | "c \<in> set (escapeRegex pre)"
    | "c \<in> set (join ''|'' (map showNat idxs))" | "c \<in> set (escapeRegex suf)" by auto
  then show "\<not> isQuote c \<and> c \<noteq> CHR '']''"
  proof cases
    case 1 then show ?thesis by (auto simp: isQuote_def)
  next
    case 2 then show ?thesis by (rule escapeRegex_chars[OF assms(1)])
  next
    case 3 then show ?thesis by (rule join_bar_chars)
  next
    case 4 then show ?thesis by (rule escapeRegex_chars[OF assms(2)])
  qed
qed

lemma emitGroup_cases:
  "emitGroup counts (k, g) =
     (if length (grp_indices g) = (case counts k of None \<Rightarrow> 0 | Some n \<Rightarrow> n)
      then [''re:'' @ escapeRegex (grp_prefix g) @ [backslash] @ ''d+'' @ escapeRegex (grp_suffix g)]
      else if length (grp_indices g) \<le> 3
      then map (\<lambda>idx. grp_prefix g @ showNat idx @ grp_suffix g) (sort (grp_indices g))
      else [''re:'' @ escapeRegex (grp_prefix g) @ ''('' @ join ''|'' (map showNat (sort (grp_indices g))) @ '')'' @
            escapeRegex (grp_suffix g)])"
  by (simp add: emitGroup_def Let_def)

lemma emitGroup_resolves:
  assumes d: "distinct sel" and sub: "set sel \<subseteq> set universe"
    and plain: "\<forall>p \<in> set sel. plainPath p" and canon: "\<forall>p \<in> set sel. canonicalIndex p"
    and anch: "anchored sel universe"
    and inv: "groupsInv sel groups" and kg: "(k, g) \<in> set groups"
  shows "(\<Union>item \<in> set (emitGroup (foldl countPath Map.empty universe) (k, g)).
            set (resolveItem platform universe [] item)) = {p \<in> set sel. templateOf p = Some k} \<and>
         (\<forall>item \<in> set (emitGroup (foldl countPath Map.empty universe) (k, g)). quotable item)"
proof -
  define pre where "pre = grp_prefix g"
  define suf where "suf = grp_suffix g"
  define idxs where "idxs = grp_indices g"
  from groupsInvD(3)[OF inv kg] obtain q dq where
    i0: "idxs = map indexOf (filter (\<lambda>p. templateOf p = Some k) sel)"
    and q: "q \<in> set sel" "matchTemplate q = Some (pre, dq, suf)"
    and k: "k = pre @ ''{{INDEX}}'' @ suf"
    unfolding pre_def suf_def idxs_def by blast
  let ?S = "{p \<in> set sel. templateOf p = Some k}"
  have tot: "(case foldl countPath Map.empty universe k of None \<Rightarrow> 0 | Some n \<Rightarrow> n) =
      length (filter (\<lambda>p. templateOf p = Some k) universe)"
    by (rule total_for_template)
  have len: "length idxs = length (filter (\<lambda>p. templateOf p = Some k) sel)"
    by (simp add: i0)
  have ss: "set (sort idxs) = set (map indexOf (filter (\<lambda>p. templateOf p = Some (pre @ ''{{INDEX}}'' @ suf)) sel))"
    by (simp add: i0 k)
  have qplain: "plainPath q" using plain q(1) by blast
  have qeq: "q = pre @ dq @ suf" by (rule matchTemplate_SomeD(1)[OF q(2)])
  have qc: "\<forall>c \<in> set q. \<not> isQuote c \<and> c \<noteq> CHR '']''"
    using plainPath_D(4)[OF qplain] by (simp add: quotable_def)
  have prec: "\<forall>c \<in> set pre. \<not> isQuote c \<and> c \<noteq> CHR '']''"
    and sufc: "\<forall>c \<in> set suf. \<not> isQuote c \<and> c \<noteq> CHR '']''"
    using qc by (simp_all add: qeq)
  have Sform: "?S = {pre @ showNat i @ suf | i. i \<in> set (sort idxs)}"
    using selected_of_group[OF q plain canon refl] by (simp add: i0 k)
  consider (all) "length idxs = length (filter (\<lambda>p. templateOf p = Some k) universe)"
    | (few) "length idxs \<noteq> length (filter (\<lambda>p. templateOf p = Some k) universe)" "length idxs \<le> 3"
    | (many) "length idxs \<noteq> length (filter (\<lambda>p. templateOf p = Some k) universe)" "\<not> length idxs \<le> 3"
    by blast
  then show ?thesis
  proof cases
    case all
    have e: "emitGroup (foldl countPath Map.empty universe) (k, g) =
        [''re:'' @ escapeRegex pre @ [backslash] @ ''d+'' @ escapeRegex suf]"
      unfolding emitGroup_cases tot using all by (simp add: idxs_def pre_def suf_def)
    have "length (filter (\<lambda>p. templateOf p = Some (pre @ ''{{INDEX}}'' @ suf)) sel) =
          length (filter (\<lambda>p. templateOf p = Some (pre @ ''{{INDEX}}'' @ suf)) universe)"
      using all len by (simp add: k)
    from wildcard_resolves[OF d sub plain canon anch q this]
    have "set (resolveItem platform universe [] (''re:'' @ escapeRegex pre @ [backslash] @ ''d+'' @ escapeRegex suf)) = ?S"
      unfolding resolveItem_wildcard by (simp add: k)
    then show ?thesis
      unfolding e using quotable_wildcard[OF prec sufc] by simp
  next
    case few
    have e: "emitGroup (foldl countPath Map.empty universe) (k, g) =
        map (\<lambda>i. pre @ showNat i @ suf) (sort idxs)"
      unfolding emitGroup_cases tot using few by (simp add: idxs_def pre_def suf_def)
    have r: "(\<Union>item \<in> set (map (\<lambda>i. pre @ showNat i @ suf) (sort idxs)).
          set (resolveItem platform universe [] item)) = ?S"
      using literals_resolve[OF sub plain canon q ss, of platform] by (simp add: k)
    have qq: "quotable item" if "item \<in> set (map (\<lambda>i. pre @ showNat i @ suf) (sort idxs))" for item
    proof -
      from that have "item \<in> {pre @ showNat i @ suf | i. i \<in> set (sort idxs)}" by auto
      then have "item \<in> ?S" by (simp only: Sform)
      then have "plainPath item" using plain by blast
      then show ?thesis by (rule plainPath_D(4))
    qed
    show ?thesis unfolding e using r qq by blast
  next
    case many
    then have ne: "sort idxs \<noteq> []" by (cases idxs) auto
    have e: "emitGroup (foldl countPath Map.empty universe) (k, g) =
        [''re:'' @ escapeRegex pre @ ''('' @ join ''|'' (map showNat (sort idxs)) @ '')'' @ escapeRegex suf]"
      unfolding emitGroup_cases tot using many by (simp add: idxs_def pre_def suf_def)
    from alternation_resolves[OF sub plain canon anch q ss]
    have "set (resolveItem platform universe []
        (''re:'' @ escapeRegex pre @ ''('' @ join ''|'' (map showNat (sort idxs)) @ '')'' @ escapeRegex suf)) = ?S"
      unfolding resolveItem_alternation[OF ne] by (simp add: k)
    then show ?thesis
      unfolding e using quotable_alternation[OF prec sufc] by simp
  qed
qed

lemma distinct_addToSet: "distinct result \<Longrightarrow> distinct (addToSet result p)"
  by (simp add: addToSet_def)

lemma distinct_foldl_test:
  "distinct acc \<Longrightarrow> distinct (foldl (\<lambda>result p. if t p then addToSet result p else result) acc ps)"
  by (induction ps arbitrary: acc) (simp_all add: distinct_addToSet)

lemma distinct_resolveItem:
  "distinct acc \<Longrightarrow> distinct (resolveItem platform universe acc item)"
  by (simp add: resolveItem_def distinct_foldl_test distinct_addToSet split: option.split)

lemma distinct_foldl_resolveItem:
  "distinct acc \<Longrightarrow> distinct (foldl (resolveItem platform universe) acc items)"
  by (induction items arbitrary: acc) (simp_all add: distinct_resolveItem)

lemma distinct_parseIgnoreItems: "distinct (parseIgnoreItems platform text' universe)"
  by (simp add: parseIgnoreItems_def distinct_foldl_resolveItem split: option.split)

lemma optimized_rules:
  assumes "sel \<noteq> []"
  shows "optimized (optimizeSelection sel universe) =
           filter (\<lambda>p. templateOf p = None) sel @
           concat (map (emitGroup (foldl countPath Map.empty universe))
             (fst (foldl groupPath ([], []) sel)))"
  using assms groupPath_nonTemplated[of "[]" "[]" sel]
  by (simp add: optimizeSelection_def Let_def)

lemma round_trip_set:
  assumes d: "distinct sel" and sub: "set sel \<subseteq> set universe"
    and plain: "\<forall>p \<in> set sel. plainPath p" and canon: "\<forall>p \<in> set sel. canonicalIndex p"
    and anch: "anchored sel universe"
  shows "set (parseIgnoreItems platform (formatIgnoreList (optimized (optimizeSelection sel universe)))
                universe) = set sel"
proof (cases "sel = []")
  case True
  have "optimized (optimizeSelection [] universe) = []" by (simp add: optimizeSelection_def)
  then show ?thesis
    using text_round_trip[of "[]" platform universe] by (simp add: True)
next
  case False
  define groups where "groups = fst (foldl groupPath ([], []) sel)"
  define counts where "counts = foldl countPath Map.empty universe"
  define nt where "nt = filter (\<lambda>p. templateOf p = None) sel"
  have inv: "groupsInv sel groups" unfolding groups_def by (rule groupsInv_optimize)
  have opt: "optimized (optimizeSelection sel universe) = nt @ concat (map (emitGroup counts) groups)"
    unfolding nt_def counts_def groups_def by (rule optimized_rules[OF False])
  have grp: "(\<Union>item \<in> set (emitGroup counts (k, g)). set (resolveItem platform universe [] item)) =
               {p \<in> set sel. templateOf p = Some k} \<and>
             (\<forall>item \<in> set (emitGroup counts (k, g)). quotable item)"
    if "(k, g) \<in> set groups" for k g
    unfolding counts_def by (rule emitGroup_resolves[OF d sub plain canon anch inv that])
  have ntq: "quotable item" if "item \<in> set nt" for item
    using that plain plainPath_D(4) by (auto simp: nt_def)
  have allq: "\<forall>item \<in> set (nt @ concat (map (emitGroup counts) groups)). quotable item"
  proof
    fix item assume "item \<in> set (nt @ concat (map (emitGroup counts) groups))"
    then consider "item \<in> set nt" | "\<exists>kg \<in> set groups. item \<in> set (emitGroup counts kg)" by auto
    then show "quotable item"
    proof cases
      case 1 then show ?thesis by (rule ntq)
    next
      case 2
      then obtain k g where "(k, g) \<in> set groups" "item \<in> set (emitGroup counts (k, g))" by auto
      with grp show ?thesis by blast
    qed
  qed
  have lit: "set (resolveItem platform universe [] item) = {item}" if "item \<in> set nt" for item
  proof -
    from that have s: "item \<in> set sel" by (simp add: nt_def)
    then have "\<not> startsWith item ''re:''" using plain plainPath_D(2) by blast
    moreover have "item \<in> set universe" using s sub by blast
    ultimately show ?thesis by (simp add: resolveItem_literal)
  qed
  have "set (parseIgnoreItems platform (formatIgnoreList (optimized (optimizeSelection sel universe))) universe) =
        (\<Union>item \<in> set (nt @ concat (map (emitGroup counts) groups)). set (resolveItem platform universe [] item))"
    unfolding opt text_round_trip[OF allq] set_foldl_resolveItem by simp
  also have "\<dots> = (\<Union>item \<in> set nt. set (resolveItem platform universe [] item)) \<union>
        (\<Union>kg \<in> set groups. \<Union>item \<in> set (emitGroup counts kg). set (resolveItem platform universe [] item))"
    by auto
  also have "(\<Union>item \<in> set nt. set (resolveItem platform universe [] item)) = set nt"
    using lit by auto
  also have "(\<Union>kg \<in> set groups. \<Union>item \<in> set (emitGroup counts kg). set (resolveItem platform universe [] item)) =
        (\<Union>kg \<in> set groups. {p \<in> set sel. templateOf p = Some (fst kg)})"
  proof (rule SUP_cong[OF refl])
    fix kg assume "kg \<in> set groups"
    then have "(fst kg, snd kg) \<in> set groups" by simp
    from grp[OF this] show "(\<Union>item \<in> set (emitGroup counts kg). set (resolveItem platform universe [] item)) =
        {p \<in> set sel. templateOf p = Some (fst kg)}" by simp
  qed
  also have "\<dots> = {p \<in> set sel. \<exists>t. templateOf p = Some t}"
  proof -
    have keys: "fst ` set groups = {t. \<exists>p \<in> set sel. templateOf p = Some t}"
      using groupsInvD(2)[OF inv] by simp
    show ?thesis
    proof (intro set_eqI iffI)
      fix p assume "p \<in> (\<Union>kg \<in> set groups. {p \<in> set sel. templateOf p = Some (fst kg)})"
      then show "p \<in> {p \<in> set sel. \<exists>t. templateOf p = Some t}" by auto
    next
      fix p assume "p \<in> {p \<in> set sel. \<exists>t. templateOf p = Some t}"
      then obtain t where p: "p \<in> set sel" "templateOf p = Some t" by blast
      then have "t \<in> fst ` set groups" unfolding keys by blast
      then obtain kg where "kg \<in> set groups" "fst kg = t" by auto
      with p show "p \<in> (\<Union>kg \<in> set groups. {p \<in> set sel. templateOf p = Some (fst kg)})" by auto
    qed
  qed
  also have "set nt \<union> {p \<in> set sel. \<exists>t. templateOf p = Some t} = set sel"
    by (auto simp: nt_def)
  finally show ?thesis .
qed

lemma properInstance_iff:
  "properInstance pre suf p \<longleftrightarrow>
     p \<noteq> [] \<and> (regexTest (wildcardPattern pre suf) (tl p) \<or>
               regexTest (wildcardPattern pre suf) (butlast p))"
proof
  assume "properInstance pre suf p"
  then obtain u ds v where p: "p = u @ pre @ ds @ suf @ v" and ds: "ds \<noteq> []" "list_all isDigit ds"
    and uv: "u \<noteq> [] \<or> v \<noteq> []"
    unfolding properInstance_def by blast
  from uv show "p \<noteq> [] \<and> (regexTest (wildcardPattern pre suf) (tl p) \<or>
               regexTest (wildcardPattern pre suf) (butlast p))"
  proof
    assume "u \<noteq> []"
    then obtain c u' where u: "u = c # u'" by (cases u) auto
    have "tl p = u' @ pre @ ds @ suf @ v" by (simp add: p u)
    then have "regexTest (wildcardPattern pre suf) (tl p)"
      unfolding regexTest_wildcard using ds by blast
    then show ?thesis by (simp add: p u)
  next
    assume "v \<noteq> []"
    then obtain v' c where v: "v = v' @ [c]" by (cases v rule: rev_cases) auto
    have "p = (u @ pre @ ds @ suf @ v') @ [c]" by (simp add: p v)
    then have "butlast p = u @ pre @ ds @ suf @ v'" by (simp only: butlast_snoc)
    then have "regexTest (wildcardPattern pre suf) (butlast p)"
      unfolding regexTest_wildcard using ds by blast
    then show ?thesis by (simp add: p v)
  qed
next
  assume a: "p \<noteq> [] \<and> (regexTest (wildcardPattern pre suf) (tl p) \<or>
               regexTest (wildcardPattern pre suf) (butlast p))"
  then have ne: "p \<noteq> []" by simp
  from a have "regexTest (wildcardPattern pre suf) (tl p) \<or>
               regexTest (wildcardPattern pre suf) (butlast p)" by simp
  then show "properInstance pre suf p"
  proof
    assume "regexTest (wildcardPattern pre suf) (tl p)"
    then obtain u ds v where t: "tl p = u @ pre @ ds @ suf @ v" and ds: "ds \<noteq> []" "list_all isDigit ds"
      unfolding regexTest_wildcard by blast
    from ne obtain c where "p = c # tl p" by (cases p) auto
    then have "p = (c # u) @ pre @ ds @ suf @ v" using t by simp
    moreover have "c # u \<noteq> []" by simp
    ultimately show ?thesis unfolding properInstance_def using ds by blast
  next
    assume "regexTest (wildcardPattern pre suf) (butlast p)"
    then obtain u ds v where t: "butlast p = u @ pre @ ds @ suf @ v" and ds: "ds \<noteq> []" "list_all isDigit ds"
      unfolding regexTest_wildcard by blast
    from ne have "p = butlast p @ [last p]" by simp
    then have "p = u @ pre @ ds @ suf @ (v @ [last p])" using t by simp
    moreover have "v @ [last p] \<noteq> []" by simp
    ultimately show ?thesis unfolding properInstance_def using ds by blast
  qed
qed

text \<open>
  Claim C1, as stated, fails in both branches. In the universe of the down projections of
  layers 0 and 1 of \<open>model\<close> and of layer 0 of \<open>text_model\<close>, the first two selected, the
  wildcard rule of their template also resolves the path of \<open>text_model\<close>, which contains a
  path of the template. In the universe of \<open>h.0.w\<close> to \<open>h.4.w\<close> and \<open>x.h.3.w\<close>, with the
  indices 0 to 3 selected, the alternation rule also resolves \<open>x.h.3.w\<close>. The rules are
  patterns of the modelled kind, so the result does not depend on the platform parameter.
  The round trip also fails for a selected path whose index has a leading zero (the literal
  is written with the parsed number), for a path with a closing bracket (it ends the list
  in the text) and for a path that starts with \<open>re:\<close> (it is read back as a pattern).
\<close>

theorem round_trip_counterexample:
  "set [''model.layers.0.mlp.down_proj'', ''model.layers.1.mlp.down_proj''] \<subseteq> set textUniverse \<and>
   optimized (optimizeSelection [''model.layers.0.mlp.down_proj'', ''model.layers.1.mlp.down_proj'']
       textUniverse) =
     [''re:model'' @ [backslash] @ ''.layers'' @ [backslash] @ ''.'' @ [backslash] @ ''d+'' @
        [backslash] @ ''.mlp'' @ [backslash] @ ''.down_proj''] \<and>
   parseIgnoreItems noPlatform
       (formatIgnoreList (optimized (optimizeSelection
          [''model.layers.0.mlp.down_proj'', ''model.layers.1.mlp.down_proj''] textUniverse)))
       textUniverse =
     [''model.layers.0.mlp.down_proj'', ''model.layers.1.mlp.down_proj'',
      ''text_model.layers.0.mlp.down_proj''] \<and>
   ''text_model.layers.0.mlp.down_proj'' \<notin>
     set [''model.layers.0.mlp.down_proj'', ''model.layers.1.mlp.down_proj''] \<and>
   set [''h.0.w'', ''h.1.w'', ''h.2.w'', ''h.3.w''] \<subseteq> set nestedUniverse \<and>
   optimized (optimizeSelection [''h.0.w'', ''h.1.w'', ''h.2.w'', ''h.3.w''] nestedUniverse) =
     [''re:h'' @ [backslash] @ ''.(0|1|2|3)'' @ [backslash] @ ''.w''] \<and>
   parseIgnoreItems noPlatform
       (formatIgnoreList (optimized (optimizeSelection [''h.0.w'', ''h.1.w'', ''h.2.w'', ''h.3.w'']
          nestedUniverse)))
       nestedUniverse =
     [''h.0.w'', ''h.1.w'', ''h.2.w'', ''h.3.w'', ''x.h.3.w''] \<and>
   ''x.h.3.w'' \<notin> set [''h.0.w'', ''h.1.w'', ''h.2.w'', ''h.3.w''] \<and>
   optimized (optimizeSelection [''a.007.b''] [''a.007.b'', ''a.1.b'']) = [''a.7.b''] \<and>
   parseIgnoreItems noPlatform
       (formatIgnoreList (optimized (optimizeSelection [''a.007.b''] [''a.007.b'', ''a.1.b''])))
       [''a.007.b'', ''a.1.b''] = [] \<and>
   parseIgnoreItems noPlatform
       (formatIgnoreList (optimized (optimizeSelection [''a]b''] [''a]b''])))
       [''a]b''] = [] \<and>
   parseIgnoreItems noPlatform
       (formatIgnoreList (optimized (optimizeSelection [''re:x''] [''re:x'', ''x''])))
       [''re:x'', ''x''] = [''re:x'', ''x'']"
  by code_simp

text \<open>
  Claim C1, amended. Let the selection be a list without repetition of paths of the
  universe, each of them plain (not empty, not starting with \<open>re:\<close>, without quotes, closing
  bracket or opening brace) and with a canonical layer index (written without a leading
  zero and exactly representable), and let no path of the universe contain an instance of
  the template of a selected path as a proper part. Then the ignore-list text emitted from
  the optimized rules resolves against the same universe to exactly the selection, as a
  set and without repetition, in the literal, the wildcard and the alternation branch of
  the optimizer, whatever the platform does with patterns outside the modelled ones.
\<close>

theorem round_trip_anchored:
  assumes "distinct sel" and "set sel \<subseteq> set universe"
    and "\<forall>p \<in> set sel. plainPath p" and "\<forall>p \<in> set sel. canonicalIndex p"
    and "anchored sel universe"
  shows "set (parseIgnoreItems platform
                (formatIgnoreList (optimized (optimizeSelection sel universe))) universe) = set sel \<and>
         distinct (parseIgnoreItems platform
                (formatIgnoreList (optimized (optimizeSelection sel universe))) universe)"
  using round_trip_set[OF assms] distinct_parseIgnoreItems by blast

lemma parseInt10_bound: "list_all isDigit ds \<Longrightarrow> parseInt10 ds < 10 ^ length ds"
proof (induction ds rule: rev_induct)
  case Nil
  then show ?case by (simp add: parseInt10_def)
next
  case (snoc c ds)
  then have "parseInt10 ds < 10 ^ length ds" and "isDigit c" by simp_all
  moreover from \<open>isDigit c\<close> have "digitValue c \<le> 9"
    unfolding isDigit_def digitValue_def by linarith
  ultimately show ?case by (simp add: parseInt10_snoc)
qed

text \<open>An index of at most 15 digits is an exact integer.\<close>

lemma canonicalIndex_short:
  assumes "case matchTemplate p of None \<Rightarrow> True
           | Some (pre, ds, suf) \<Rightarrow> showNat (parseInt10 ds) = ds \<and> length ds \<le> 15"
  shows "canonicalIndex p"
proof (cases "matchTemplate p")
  case None
  then show ?thesis by (simp add: canonicalIndex_def)
next
  case (Some m)
  obtain pre ds suf where m: "m = (pre, ds, suf)" by (cases m)
  from assms have s: "showNat (parseInt10 ds) = ds" and l: "length ds \<le> 15"
    by (simp_all add: Some m)
  have "list_all isDigit ds" using matchTemplate_SomeD(5)[of p pre ds suf] Some m by simp
  then have "parseInt10 ds < 10 ^ length ds" by (rule parseInt10_bound)
  also have "(10::nat) ^ length ds \<le> 10 ^ 15" by (rule power_increasing[OF l]) simp
  also have "(10::nat) ^ 15 < 2 ^ 53" by simp
  finally show ?thesis using s by (simp add: canonicalIndex_def Some m)
qed

lemma mixed_hypotheses:
  "distinct mixedSelection" "set mixedSelection \<subseteq> set mixedUniverse"
  "list_all plainPath mixedSelection"
  by code_simp+

lemma mixed_canonical: "list_all canonicalIndex mixedSelection"
proof -
  have "list_all (\<lambda>p. case matchTemplate p of None \<Rightarrow> True
           | Some (pre, ds, suf) \<Rightarrow> showNat (parseInt10 ds) = ds \<and> length ds \<le> 15) mixedSelection"
    by code_simp
  then show ?thesis
    unfolding list_all_iff using canonicalIndex_short by blast
qed

lemma mixed_anchored: "anchored mixedSelection mixedUniverse"
  unfolding anchored_def properInstance_iff by code_simp

lemma mixed_rules:
  "optimized (optimizeSelection mixedSelection mixedUniverse) =
     [''lm_head'',
      ''re:h'' @ [backslash] @ ''.(0|1|2|4)'' @ [backslash] @ ''.w'',
      ''re:g'' @ [backslash] @ ''.'' @ [backslash] @ ''d+'' @ [backslash] @ ''.w'',
      ''e.8.w'']"
  by code_simp

theorem round_trip_anchored_witness:
  "distinct mixedSelection \<and> set mixedSelection \<subseteq> set mixedUniverse \<and>
   list_all plainPath mixedSelection \<and> list_all canonicalIndex mixedSelection \<and>
   anchored mixedSelection mixedUniverse \<and>
   optimized (optimizeSelection mixedSelection mixedUniverse) =
     [''lm_head'',
      ''re:h'' @ [backslash] @ ''.(0|1|2|4)'' @ [backslash] @ ''.w'',
      ''re:g'' @ [backslash] @ ''.'' @ [backslash] @ ''d+'' @ [backslash] @ ''.w'',
      ''e.8.w''] \<and>
   set (parseIgnoreItems noPlatform
          (formatIgnoreList (optimized (optimizeSelection mixedSelection mixedUniverse)))
          mixedUniverse) = set mixedSelection"
proof -
  have p: "\<forall>p \<in> set mixedSelection. plainPath p" and c: "\<forall>p \<in> set mixedSelection. canonicalIndex p"
    using mixed_hypotheses(3) mixed_canonical by (simp_all only: list_all_iff)
  from round_trip_anchored[OF mixed_hypotheses(1,2) p c mixed_anchored, of noPlatform]
  have "set (parseIgnoreItems noPlatform
          (formatIgnoreList (optimized (optimizeSelection mixedSelection mixedUniverse)))
          mixedUniverse) = set mixedSelection" by (rule conjunct1)
  then show ?thesis
    by (intro conjI) (rule mixed_hypotheses mixed_canonical mixed_anchored mixed_rules | assumption)+
qed

end
